theory Spec2Isabelle
  imports Main "HOL-Library.AList" "HOL-Library.Sublist"
begin

section \<open>Layers, the store of layer objects and the configuration collaborator\<close>

text \<open>
  A \<open>Layer\<close> is a mutable object. The rewriter reads two things of it: its concrete
  type (\<open>type(child)\<close>) and its ordered dictionary \<open>_sub_layers\<close> from child name to
  child object. Objects live in a store; a reference is an index into the store.
  Objects are never freed, so the store only grows.
\<close>

type_synonym addr = nat

type_synonym kind = string

record layer =
  kind :: kind
  sub_layers :: "(string \<times> addr) list"

type_synonym heap = "layer list"

text \<open>An exception raised by a collaborator, named by its kind.\<close>

datatype error = Raised string

text \<open>
  Modelled from the spec: \<open>Layer.named_children\<close> is not part of the source file. The
  spec describes it as the enumeration, in stable order, of the node's mapping from child
  name to child node. The enumeration is the content of the mapping when the loop starts.
  A reference that is not in the store has no outcome (\<open>None\<close>); Python has no such
  references.
\<close>

definition named_children :: "heap \<Rightarrow> addr \<Rightarrow> (string \<times> addr) list option" where
  "named_children h m = (if m < length h then Some (sub_layers (h ! m)) else None)"

text \<open>\<open>type(child)\<close>.\<close>

definition layer_type :: "heap \<Rightarrow> addr \<Rightarrow> kind option" where
  "layer_type h a = (if a < length h then Some (kind (h ! a)) else None)"

text \<open>
  The methods of \<open>QuantConfig\<close> are not part of the source file; they are parameters.
  \<open>'c\<close> is the content of a configuration object. The two queries return a truth value
  or raise; the two constructors return a reference to the layer they built, in a store
  that they may have changed; \<open>_specify\<close> binds the configuration to a model and may
  change both the configuration object and the store.
\<close>

record 'c QuantConfig =
  specify :: "'c \<Rightarrow> heap \<Rightarrow> addr \<Rightarrow> error + 'c \<times> heap"
  is_quantifiable :: "'c \<Rightarrow> heap \<Rightarrow> addr \<Rightarrow> error + bool"
  qat_layer_mappings :: "'c \<Rightarrow> kind list"
  get_qat_layer :: "'c \<Rightarrow> heap \<Rightarrow> addr \<Rightarrow> error + addr \<times> heap"
  need_observe :: "'c \<Rightarrow> heap \<Rightarrow> addr \<Rightarrow> error + bool"
  get_observe_wrapper :: "'c \<Rightarrow> heap \<Rightarrow> addr \<Rightarrow> error + addr \<times> heap"

section \<open>The two passes\<close>

text \<open>
  \<open>for key, value in replaced.items(): model._sub_layers[key] = value\<close>.
  Assigning to a key of an ordered dictionary keeps the key's position, or appends a new
  key; this is \<open>AList.update\<close>.
\<close>

definition install :: "addr \<Rightarrow> (string \<times> addr) list \<Rightarrow> heap \<Rightarrow> (error + heap) option" where
  "install m replaced h =
     (if m < length h
      then Some (Inr (h[m := (h ! m)\<lparr>sub_layers :=
               fold (\<lambda>kv sl. AList.update (fst kv) (snd kv) sl) replaced (sub_layers (h ! m))\<rparr>]))
      else None)"

text \<open>
  The loop of \<open>_convert_to_quant_layers\<close> over the children; \<open>rec\<close> is the recursive
  call \<open>self._convert_to_quant_layers(child, config)\<close>.
\<close>

primrec convert_children ::
  "(addr \<Rightarrow> heap \<Rightarrow> (error + heap) option) \<Rightarrow> 'c QuantConfig \<Rightarrow> 'c \<Rightarrow>
   (string \<times> addr) list \<Rightarrow> (string \<times> addr) list \<Rightarrow> heap \<Rightarrow>
   (error + (string \<times> addr) list \<times> heap) option" where
  "convert_children rec config c [] replaced h = Some (Inr (replaced, h))"
| "convert_children rec config c (nc # rest) replaced h =
     (case is_quantifiable config c h (snd nc) of
        Inl e \<Rightarrow> Some (Inl e)
      | Inr False \<Rightarrow> convert_children rec config c rest replaced h
      | Inr True \<Rightarrow>
          (case layer_type h (snd nc) of
             None \<Rightarrow> None
           | Some t \<Rightarrow>
               if t \<notin> set (qat_layer_mappings config c)
               then (case rec (snd nc) h of
                       None \<Rightarrow> None
                     | Some (Inl e) \<Rightarrow> Some (Inl e)
                     | Some (Inr h') \<Rightarrow> convert_children rec config c rest replaced h')
               else (case get_qat_layer config c h (snd nc) of
                       Inl e \<Rightarrow> Some (Inl e)
                     | Inr (r, h') \<Rightarrow>
                         convert_children rec config c rest
                           (AList.update (fst nc) r replaced) h')))"

text \<open>
  \<open>_convert_to_quant_layers\<close>. The first argument bounds the depth of the recursion;
  \<open>None\<close> is a call that does not return within the bound.
\<close>

fun convert_to_quant_layers ::
  "nat \<Rightarrow> 'c QuantConfig \<Rightarrow> 'c \<Rightarrow> addr \<Rightarrow> heap \<Rightarrow> (error + heap) option" where
  "convert_to_quant_layers 0 config c m h = None"
| "convert_to_quant_layers (Suc k) config c m h =
     (case named_children h m of
        None \<Rightarrow> None
      | Some cs \<Rightarrow>
          (case convert_children (convert_to_quant_layers k config c) config c cs [] h of
             None \<Rightarrow> None
           | Some (Inl e) \<Rightarrow> Some (Inl e)
           | Some (Inr (replaced, h')) \<Rightarrow> install m replaced h'))"

text \<open>The loop of \<open>_insert_activation_observers\<close> over the children.\<close>

primrec observe_children ::
  "(addr \<Rightarrow> heap \<Rightarrow> (error + heap) option) \<Rightarrow> 'c QuantConfig \<Rightarrow> 'c \<Rightarrow>
   (string \<times> addr) list \<Rightarrow> (string \<times> addr) list \<Rightarrow> heap \<Rightarrow>
   (error + (string \<times> addr) list \<times> heap) option" where
  "observe_children rec config c [] replaced h = Some (Inr (replaced, h))"
| "observe_children rec config c (nc # rest) replaced h =
     (case need_observe config c h (snd nc) of
        Inl e \<Rightarrow> Some (Inl e)
      | Inr True \<Rightarrow>
          (case get_observe_wrapper config c h (snd nc) of
             Inl e \<Rightarrow> Some (Inl e)
           | Inr (r, h') \<Rightarrow>
               observe_children rec config c rest (AList.update (fst nc) r replaced) h')
      | Inr False \<Rightarrow>
          (case rec (snd nc) h of
             None \<Rightarrow> None
           | Some (Inl e) \<Rightarrow> Some (Inl e)
           | Some (Inr h') \<Rightarrow> observe_children rec config c rest replaced h'))"

text \<open>\<open>_insert_activation_observers\<close>, with the same bound on the recursion depth.\<close>

fun insert_activation_observers ::
  "nat \<Rightarrow> 'c QuantConfig \<Rightarrow> 'c \<Rightarrow> addr \<Rightarrow> heap \<Rightarrow> (error + heap) option" where
  "insert_activation_observers 0 config c m h = None"
| "insert_activation_observers (Suc k) config c m h =
     (case named_children h m of
        None \<Rightarrow> None
      | Some cs \<Rightarrow>
          (case observe_children (insert_activation_observers k config c) config c cs [] h of
             None \<Rightarrow> None
           | Some (Inl e) \<Rightarrow> Some (Inl e)
           | Some (Inr (replaced, h')) \<Rightarrow> install m replaced h'))"

section \<open>The rewriter\<close>

text \<open>
  Configuration objects are mutable objects too, and live in a store of their own. The
  world is the two stores.
\<close>

record 'c world =
  layers :: heap
  configs :: "'c list"

text \<open>The rewriter object has one attribute, \<open>self._config\<close>, a reference to a configuration.\<close>

record QAT =
  qat_config :: nat

text \<open>
  Modelled from the spec: \<open>copy.deepcopy\<close> of the configuration is not part of the
  source file. The spec asks of it a clone with full independence from its source: a new
  object with the content of the old one.
\<close>

definition deepcopy_config :: "'c list \<Rightarrow> nat \<Rightarrow> (nat \<times> 'c list) option" where
  "deepcopy_config cs a = (if a < length cs then Some (length cs, cs @ [cs ! a]) else None)"

text \<open>\<open>QAT.__init__\<close>: \<open>self._config = copy.deepcopy(config)\<close>.\<close>

definition QAT_init :: "nat \<Rightarrow> 'c world \<Rightarrow> (QAT \<times> 'c world) option" where
  "QAT_init config w =
     (case deepcopy_config (configs w) config of
        None \<Rightarrow> None
      | Some (r, cs) \<Rightarrow> Some (\<lparr>qat_config = r\<rparr>, w\<lparr>configs := cs\<rparr>))"

text \<open>
  \<open>QAT.quantize\<close>. \<open>copy.deepcopy\<close> of the model is a parameter: it returns a reference
  to the copy, in a store that holds the copy, or raises. \<open>self._config._specify(_model)\<close>
  changes the configuration object that the rewriter holds. The result is the reference
  \<open>_model\<close> and the world after the call.
\<close>

definition quantize ::
  "nat \<Rightarrow> 'c QuantConfig \<Rightarrow> (heap \<Rightarrow> addr \<Rightarrow> error + addr \<times> heap) \<Rightarrow>
   QAT \<Rightarrow> addr \<Rightarrow> bool \<Rightarrow> 'c world \<Rightarrow> (error + addr \<times> 'c world) option" where
  "quantize k config deepcopy self model inplace w =
     (if qat_config self < length (configs w)
      then
        (case (if inplace then Inr (model, layers w) else deepcopy (layers w) model) of
           Inl e \<Rightarrow> Some (Inl e)
         | Inr (m, h0) \<Rightarrow>
             (case specify config (configs w ! qat_config self) h0 m of
                Inl e \<Rightarrow> Some (Inl e)
              | Inr (c, h1) \<Rightarrow>
                  (case convert_to_quant_layers k config c m h1 of
                     None \<Rightarrow> None
                   | Some (Inl e) \<Rightarrow> Some (Inl e)
                   | Some (Inr h2) \<Rightarrow>
                       (case insert_activation_observers k config c m h2 of
                          None \<Rightarrow> None
                        | Some (Inl e) \<Rightarrow> Some (Inl e)
                        | Some (Inr h3) \<Rightarrow>
                            Some (Inr (m, \<lparr>layers = h3,
                                           configs = (configs w)[qat_config self := c]\<rparr>))))))
      else None)"

section \<open>What the proofs ask of the collaborators, and of the model\<close>

text \<open>A constructor that only allocates: every object of the old store is unchanged.\<close>

definition allocates_only :: "(heap \<Rightarrow> addr \<Rightarrow> error + addr \<times> heap) \<Rightarrow> bool" where
  "allocates_only f \<longleftrightarrow> (\<forall>h a r h'. f h a = Inr (r, h') \<longrightarrow> prefix h h')"

text \<open>
  A constructor that builds its result from new objects: it only allocates, it returns the
  layer it was given or a new one, and the new layers refer only to the layer it was given
  and to one another.
\<close>

definition builds_fresh :: "(heap \<Rightarrow> addr \<Rightarrow> error + addr \<times> heap) \<Rightarrow> bool" where
  "builds_fresh f \<longleftrightarrow>
     (\<forall>h a r h'. f h a = Inr (r, h') \<longrightarrow>
        prefix h h' \<and> r < length h' \<and> (r = a \<or> length h \<le> r) \<and>
        (\<forall>b. length h \<le> b \<and> b < length h' \<longrightarrow>
           (\<forall>d \<in> snd ` set (sub_layers (h' ! b)). d = a \<or> (length h \<le> d \<and> d < length h'))))"

text \<open>A set of references that is closed under taking children.\<close>

definition closed :: "addr set \<Rightarrow> heap \<Rightarrow> bool" where
  "closed R h \<longleftrightarrow> (\<forall>a \<in> R. a < length h \<and> snd ` set (sub_layers (h ! a)) \<subseteq> R)"

text \<open>
  The references below a layer, in preorder, down to a bounded depth; \<open>None\<close> when the
  structure is deeper than the bound or refers outside the store.
\<close>

fun subtree :: "nat \<Rightarrow> heap \<Rightarrow> addr \<Rightarrow> addr list option" where
  "subtree 0 h a = None"
| "subtree (Suc k) h a =
     (if a < length h
      then map_option (\<lambda>dss. a # concat dss)
             (those (map (\<lambda>nc. subtree k h (snd nc)) (sub_layers (h ! a))))
      else None)"

text \<open>
  The model below \<open>a\<close> is a tree: no layer object occurs twice, and the names of the
  children of a layer are the keys of a dictionary.
\<close>

definition is_tree :: "nat \<Rightarrow> heap \<Rightarrow> addr \<Rightarrow> bool" where
  "is_tree k h a =
     (case subtree k h a of
        None \<Rightarrow> False
      | Some as \<Rightarrow> distinct as \<and> list_all (\<lambda>b. distinct (map fst (sub_layers (h ! b)))) as)"

text \<open>The child that a layer holds under a name.\<close>

definition child_at :: "heap \<Rightarrow> addr \<Rightarrow> string \<Rightarrow> addr option" where
  "child_at h m n = (if m < length h then map_of (sub_layers (h ! m)) n else None)"

section \<open>A common form of the two passes\<close>

text \<open>
  Both loops decide, for each child, between leaving it alone, descending into it and
  staging a replacement for it. The common form is used in the proofs only.
\<close>

datatype action = Skip | Descend | Replace

primrec walk_children ::
  "(addr \<Rightarrow> heap \<Rightarrow> (error + heap) option) \<Rightarrow> (heap \<Rightarrow> addr \<Rightarrow> (error + action) option) \<Rightarrow>
   (heap \<Rightarrow> addr \<Rightarrow> error + addr \<times> heap) \<Rightarrow>
   (string \<times> addr) list \<Rightarrow> (string \<times> addr) list \<Rightarrow> heap \<Rightarrow>
   (error + (string \<times> addr) list \<times> heap) option" where
  "walk_children rec decide build [] replaced h = Some (Inr (replaced, h))"
| "walk_children rec decide build (nc # rest) replaced h =
     (case decide h (snd nc) of
        None \<Rightarrow> None
      | Some (Inl e) \<Rightarrow> Some (Inl e)
      | Some (Inr Skip) \<Rightarrow> walk_children rec decide build rest replaced h
      | Some (Inr Descend) \<Rightarrow>
          (case rec (snd nc) h of
             None \<Rightarrow> None
           | Some (Inl e) \<Rightarrow> Some (Inl e)
           | Some (Inr h') \<Rightarrow> walk_children rec decide build rest replaced h')
      | Some (Inr Replace) \<Rightarrow>
          (case build h (snd nc) of
             Inl e \<Rightarrow> Some (Inl e)
           | Inr (r, h') \<Rightarrow>
               walk_children rec decide build rest (AList.update (fst nc) r replaced) h'))"

fun walk ::
  "nat \<Rightarrow> (heap \<Rightarrow> addr \<Rightarrow> (error + action) option) \<Rightarrow>
   (heap \<Rightarrow> addr \<Rightarrow> error + addr \<times> heap) \<Rightarrow> addr \<Rightarrow> heap \<Rightarrow> (error + heap) option" where
  "walk 0 decide build m h = None"
| "walk (Suc k) decide build m h =
     (case named_children h m of
        None \<Rightarrow> None
      | Some cs \<Rightarrow>
          (case walk_children (walk k decide build) decide build cs [] h of
             None \<Rightarrow> None
           | Some (Inl e) \<Rightarrow> Some (Inl e)
           | Some (Inr (replaced, h')) \<Rightarrow> install m replaced h'))"

definition convert_decide :: "'c QuantConfig \<Rightarrow> 'c \<Rightarrow> heap \<Rightarrow> addr \<Rightarrow> (error + action) option" where
  "convert_decide config c h a =
     (case is_quantifiable config c h a of
        Inl e \<Rightarrow> Some (Inl e)
      | Inr False \<Rightarrow> Some (Inr Skip)
      | Inr True \<Rightarrow>
          (case layer_type h a of
             None \<Rightarrow> None
           | Some t \<Rightarrow>
               if t \<notin> set (qat_layer_mappings config c) then Some (Inr Descend)
               else Some (Inr Replace)))"

definition observe_decide :: "'c QuantConfig \<Rightarrow> 'c \<Rightarrow> heap \<Rightarrow> addr \<Rightarrow> (error + action) option" where
  "observe_decide config c h a =
     (case need_observe config c h a of
        Inl e \<Rightarrow> Some (Inl e)
      | Inr True \<Rightarrow> Some (Inr Replace)
      | Inr False \<Rightarrow> Some (Inr Descend))"

text \<open>
  What every step of a pass keeps of the store it starts from: the old layers are still
  there, with their types and with the names of their children.
\<close>

definition keeps :: "heap \<Rightarrow> heap \<Rightarrow> bool" where
  "keeps h h' \<longleftrightarrow>
     length h \<le> length h' \<and>
     (\<forall>a<length h. kind (h' ! a) = kind (h ! a) \<and>
        map fst (sub_layers (h' ! a)) = map fst (sub_layers (h ! a)))"

text \<open>
  A step that changes, of the old store, only layers in \<open>R\<close>, and leaves \<open>R\<close>
  together with the new layers closed.
\<close>

definition touches_only :: "addr set \<Rightarrow> heap \<Rightarrow> heap \<Rightarrow> bool" where
  "touches_only R h h' \<longleftrightarrow>
     length h \<le> length h' \<and>
     (\<forall>a<length h. a \<notin> R \<longrightarrow> h' ! a = h ! a) \<and>
     closed (R \<union> {length h..<length h'}) h'"

text \<open>
  What a loop does for one child \<open>a\<close>: the store before and after the step, and the
  replacement that the step stages, if any.
\<close>

definition step_of ::
  "(addr \<Rightarrow> heap \<Rightarrow> (error + heap) option) \<Rightarrow> (heap \<Rightarrow> addr \<Rightarrow> error + addr \<times> heap) \<Rightarrow>
   action \<Rightarrow> addr \<Rightarrow> heap \<Rightarrow> heap \<Rightarrow> addr option \<Rightarrow> bool" where
  "step_of rec build act a ha hb r =
     (case act of
        Skip \<Rightarrow> hb = ha \<and> r = None
      | Descend \<Rightarrow> rec a ha = Some (Inr hb) \<and> r = None
      | Replace \<Rightarrow> (case r of None \<Rightarrow> False | Some r' \<Rightarrow> build ha a = Inr (r', hb)))"



text \<open>The layer \<open>p\<close> is the layer \<open>c\<close> or lies below it.\<close>

definition inside :: "heap \<Rightarrow> addr \<Rightarrow> addr \<Rightarrow> bool" where
  "inside h c p \<longleftrightarrow> (\<exists>j bs. subtree j h c = Some bs \<and> p \<in> set bs)"




section \<open>An example configuration and an example model\<close>

text \<open>
  The content of the example configuration: the model it was bound to, if any, and the
  layer types it was told to quantize. It answers no query before it is bound.
\<close>

record demo_content =
  bound :: "addr option"
  quant_kinds :: "kind list"

definition demo_config :: "demo_content QuantConfig" where
  "demo_config =
     \<lparr>specify = (\<lambda>c h m. Inr (c\<lparr>bound := Some m\<rparr>, h)),
      is_quantifiable = (\<lambda>c h a.
         if bound c = None then Inl (Raised ''NotSpecified'')
         else Inr (a < length h \<and> kind (h ! a) \<in> set (quant_kinds c))),
      qat_layer_mappings = (\<lambda>c. [''Conv2D'', ''Linear'']),
      get_qat_layer = (\<lambda>c h a.
         Inr (length h, h @ [\<lparr>kind = ''QuantedLayer'', sub_layers = []\<rparr>])),
      need_observe = (\<lambda>c h a. Inr (a < length h \<and> kind (h ! a) = ''QuantedLayer'')),
      get_observe_wrapper = (\<lambda>c h a.
         Inr (length h, h @ [\<lparr>kind = ''ObserveWrapper'', sub_layers = [(''_observed'', a)]\<rparr>]))\<rparr>"

text \<open>
  The model of the spec's scenario, with one eligible container added:
  \<open>{convA: Conv2D, normB: BatchNorm{child: Conv2D}, blockC: Block{fc: Linear}}\<close>.
\<close>

definition demo_heap :: heap where
  "demo_heap =
     [\<lparr>kind = ''Sequential'', sub_layers = [(''convA'', 1), (''normB'', 2), (''blockC'', 4)]\<rparr>,
      \<lparr>kind = ''Conv2D'', sub_layers = []\<rparr>,
      \<lparr>kind = ''BatchNorm'', sub_layers = [(''child'', 3)]\<rparr>,
      \<lparr>kind = ''Conv2D'', sub_layers = []\<rparr>,
      \<lparr>kind = ''Block'', sub_layers = [(''fc'', 5)]\<rparr>,
      \<lparr>kind = ''Linear'', sub_layers = []\<rparr>]"

definition demo_content0 :: demo_content where
  "demo_content0 = \<lparr>bound = None, quant_kinds = [''Conv2D'', ''Linear'', ''Block'']\<rparr>"

definition demo_world :: "demo_content world" where
  "demo_world = \<lparr>layers = demo_heap, configs = [demo_content0]\<rparr>"

text \<open>The example world after \<open>quantize\<close> in place.\<close>

definition demo_quantized :: "demo_content world" where
  "demo_quantized =
   \<lparr>layers =
     [\<lparr>kind = ''Sequential'', sub_layers = [(''convA'', 8), (''normB'', 2), (''blockC'', 4)]\<rparr>,
      \<lparr>kind = ''Conv2D'', sub_layers = []\<rparr>,
      \<lparr>kind = ''BatchNorm'', sub_layers = [(''child'', 3)]\<rparr>,
      \<lparr>kind = ''Conv2D'', sub_layers = []\<rparr>,
      \<lparr>kind = ''Block'', sub_layers = [(''fc'', 9)]\<rparr>,
      \<lparr>kind = ''Linear'', sub_layers = []\<rparr>,
      \<lparr>kind = ''QuantedLayer'', sub_layers = []\<rparr>,
      \<lparr>kind = ''QuantedLayer'', sub_layers = []\<rparr>,
      \<lparr>kind = ''ObserveWrapper'', sub_layers = [(''_observed'', 6)]\<rparr>,
      \<lparr>kind = ''ObserveWrapper'', sub_layers = [(''_observed'', 7)]\<rparr>],
     configs = [\<lparr>bound = Some 0, quant_kinds = [''Conv2D'', ''Linear'', ''Block'']\<rparr>]\<rparr>"

text \<open>A deep copy for the examples: it copies every layer of the store to a new layer.\<close>

definition demo_deepcopy :: "heap \<Rightarrow> addr \<Rightarrow> error + addr \<times> heap" where
  "demo_deepcopy h a =
     Inr (a + length h,
          h @ map (\<lambda>l. l\<lparr>sub_layers := map (\<lambda>nc. (fst nc, snd nc + length h)) (sub_layers l)\<rparr>) h)"

text \<open>The example world after \<open>quantize\<close> on a deep copy.\<close>

definition demo_copied :: "demo_content world" where
  "demo_copied =
   \<lparr>layers =
     [\<lparr>kind = ''Sequential'', sub_layers = [(''convA'', 1), (''normB'', 2), (''blockC'', 4)]\<rparr>,
      \<lparr>kind = ''Conv2D'', sub_layers = []\<rparr>,
      \<lparr>kind = ''BatchNorm'', sub_layers = [(''child'', 3)]\<rparr>,
      \<lparr>kind = ''Conv2D'', sub_layers = []\<rparr>,
      \<lparr>kind = ''Block'', sub_layers = [(''fc'', 5)]\<rparr>,
      \<lparr>kind = ''Linear'', sub_layers = []\<rparr>,
      \<lparr>kind = ''Sequential'', sub_layers = [(''convA'', 14), (''normB'', 8), (''blockC'', 10)]\<rparr>,
      \<lparr>kind = ''Conv2D'', sub_layers = []\<rparr>,
      \<lparr>kind = ''BatchNorm'', sub_layers = [(''child'', 9)]\<rparr>,
      \<lparr>kind = ''Conv2D'', sub_layers = []\<rparr>,
      \<lparr>kind = ''Block'', sub_layers = [(''fc'', 15)]\<rparr>,
      \<lparr>kind = ''Linear'', sub_layers = []\<rparr>,
      \<lparr>kind = ''QuantedLayer'', sub_layers = []\<rparr>,
      \<lparr>kind = ''QuantedLayer'', sub_layers = []\<rparr>,
      \<lparr>kind = ''ObserveWrapper'', sub_layers = [(''_observed'', 12)]\<rparr>,
      \<lparr>kind = ''ObserveWrapper'', sub_layers = [(''_observed'', 13)]\<rparr>],
     configs = [\<lparr>bound = Some 6, quant_kinds = [''Conv2D'', ''Linear'', ''Block'']\<rparr>]\<rparr>"

text \<open>The example configuration once bound to the example model.\<close>

definition demo_bound :: demo_content where
  "demo_bound = \<lparr>bound = Some 0, quant_kinds = [''Conv2D'', ''Linear'', ''Block'']\<rparr>"

text \<open>The example store after the replacement pass.\<close>

definition demo_converted :: heap where
  "demo_converted =
     [\<lparr>kind = ''Sequential'', sub_layers = [(''convA'', 6), (''normB'', 2), (''blockC'', 4)]\<rparr>,
      \<lparr>kind = ''Conv2D'', sub_layers = []\<rparr>,
      \<lparr>kind = ''BatchNorm'', sub_layers = [(''child'', 3)]\<rparr>,
      \<lparr>kind = ''Conv2D'', sub_layers = []\<rparr>,
      \<lparr>kind = ''Block'', sub_layers = [(''fc'', 7)]\<rparr>,
      \<lparr>kind = ''Linear'', sub_layers = []\<rparr>,
      \<lparr>kind = ''QuantedLayer'', sub_layers = []\<rparr>,
      \<lparr>kind = ''QuantedLayer'', sub_layers = []\<rparr>]"

text \<open>The example store when the loop of the replacement pass over the root has returned.\<close>

definition demo_staged :: heap where
  "demo_staged =
     [\<lparr>kind = ''Sequential'', sub_layers = [(''convA'', 1), (''normB'', 2), (''blockC'', 4)]\<rparr>,
      \<lparr>kind = ''Conv2D'', sub_layers = []\<rparr>,
      \<lparr>kind = ''BatchNorm'', sub_layers = [(''child'', 3)]\<rparr>,
      \<lparr>kind = ''Conv2D'', sub_layers = []\<rparr>,
      \<lparr>kind = ''Block'', sub_layers = [(''fc'', 7)]\<rparr>,
      \<lparr>kind = ''Linear'', sub_layers = []\<rparr>,
      \<lparr>kind = ''QuantedLayer'', sub_layers = []\<rparr>,
      \<lparr>kind = ''QuantedLayer'', sub_layers = []\<rparr>]"

text \<open>
  A model that holds a layer the example configuration wants observed, and a
  configuration that was told to quantize nothing.
\<close>

definition demo_requant_world :: "demo_content world" where
  "demo_requant_world =
     \<lparr>layers = [\<lparr>kind = ''Sequential'', sub_layers = [(''act'', 1)]\<rparr>,
                \<lparr>kind = ''QuantedLayer'', sub_layers = []\<rparr>],
      configs = [\<lparr>bound = None, quant_kinds = []\<rparr>]\<rparr>"

definition demo_requant_result :: "demo_content world" where
  "demo_requant_result =
     \<lparr>layers = [\<lparr>kind = ''Sequential'', sub_layers = [(''act'', 2)]\<rparr>,
                \<lparr>kind = ''QuantedLayer'', sub_layers = []\<rparr>,
                \<lparr>kind = ''ObserveWrapper'', sub_layers = [(''_observed'', 1)]\<rparr>],
      configs = [\<lparr>bound = Some 0, quant_kinds = []\<rparr>]\<rparr>"

text \<open>The example model with a configuration that was told to quantize nothing.\<close>

definition demo_idle_world :: "demo_content world" where
  "demo_idle_world = \<lparr>layers = demo_heap, configs = [\<lparr>bound = None, quant_kinds = []\<rparr>]\<rparr>"

text \<open>
  What a caller does during the lifetime of a rewriter: it calls \<open>quantize\<close> on it, and
  it overwrites configuration objects that it holds a reference to.
\<close>

datatype 'c caller_step = Quantize addr bool | Overwrite nat 'c

primrec is_Quantize :: "'c caller_step \<Rightarrow> bool" where
  "is_Quantize (Quantize model inplace) = True"
| "is_Quantize (Overwrite x v) = False"

text \<open>
  The steps of a caller, one after the other, on one rewriter; the result is the list of
  the models that the calls of \<open>quantize\<close> returned, or the first exception.
\<close>

primrec rewriter_lifetime ::
  "nat \<Rightarrow> 'c QuantConfig \<Rightarrow> (heap \<Rightarrow> addr \<Rightarrow> error + addr \<times> heap) \<Rightarrow> QAT \<Rightarrow>
   'c caller_step list \<Rightarrow> 'c world \<Rightarrow> (error + addr list \<times> 'c world) option" where
  "rewriter_lifetime k config deepcopy self [] w = Some (Inr ([], w))"
| "rewriter_lifetime k config deepcopy self (s # rest) w =
     (case s of
        Overwrite x v \<Rightarrow>
          rewriter_lifetime k config deepcopy self rest (w\<lparr>configs := (configs w)[x := v]\<rparr>)
      | Quantize model inplace \<Rightarrow>
          (case quantize k config deepcopy self model inplace w of
             None \<Rightarrow> None
           | Some (Inl e) \<Rightarrow> Some (Inl e)
           | Some (Inr (m, w')) \<Rightarrow>
               (case rewriter_lifetime k config deepcopy self rest w' of
                  None \<Rightarrow> None
                | Some (Inl e) \<Rightarrow> Some (Inl e)
                | Some (Inr (ms, w'')) \<Rightarrow> Some (Inr (m # ms, w'')))))"

text \<open>What a rewriter can see of the world: the layers, and its own configuration object.\<close>

definition owned :: "QAT \<Rightarrow> 'c world \<Rightarrow> heap \<times> 'c option" where
  "owned self w =
     (layers w,
      if qat_config self < length (configs w) then Some (configs w ! qat_config self) else None)"

text \<open>
  A configuration that quantizes the first model it is bound to, and nothing after that.
\<close>

definition demo_once_config :: "demo_content QuantConfig" where
  "demo_once_config =
     demo_config\<lparr>specify := (\<lambda>c h m.
        Inr (if bound c = None then c\<lparr>bound := Some m\<rparr>
             else c\<lparr>bound := Some m, quant_kinds := []\<rparr>, h))\<rparr>"

definition demo_small_world :: "demo_content world" where
  "demo_small_world =
     \<lparr>layers = [\<lparr>kind = ''Sequential'', sub_layers = [(''conv'', 1)]\<rparr>,
                \<lparr>kind = ''Conv2D'', sub_layers = []\<rparr>],
      configs = [\<lparr>bound = None, quant_kinds = [''Conv2D'']\<rparr>,
                 \<lparr>bound = None, quant_kinds = [''Conv2D'']\<rparr>]\<rparr>"

text \<open>The small world after a first and after a second call of \<open>quantize\<close> on a copy.\<close>

definition demo_once_first :: "addr \<times> demo_content world" where
  "demo_once_first =
     (2, \<lparr>layers = [\<lparr>kind = ''Sequential'', sub_layers = [(''conv'', 1)]\<rparr>,
                     \<lparr>kind = ''Conv2D'', sub_layers = []\<rparr>,
                     \<lparr>kind = ''Sequential'', sub_layers = [(''conv'', 5)]\<rparr>,
                     \<lparr>kind = ''Conv2D'', sub_layers = []\<rparr>,
                     \<lparr>kind = ''QuantedLayer'', sub_layers = []\<rparr>,
                     \<lparr>kind = ''ObserveWrapper'', sub_layers = [(''_observed'', 4)]\<rparr>],
           configs = [\<lparr>bound = None, quant_kinds = [''Conv2D'']\<rparr>,
                      \<lparr>bound = Some 2, quant_kinds = [''Conv2D'']\<rparr>]\<rparr>)"

definition demo_once_second :: "addr \<times> demo_content world" where
  "demo_once_second =
     (6, \<lparr>layers = [\<lparr>kind = ''Sequential'', sub_layers = [(''conv'', 1)]\<rparr>,
                     \<lparr>kind = ''Conv2D'', sub_layers = []\<rparr>,
                     \<lparr>kind = ''Sequential'', sub_layers = [(''conv'', 5)]\<rparr>,
                     \<lparr>kind = ''Conv2D'', sub_layers = []\<rparr>,
                     \<lparr>kind = ''QuantedLayer'', sub_layers = []\<rparr>,
                     \<lparr>kind = ''ObserveWrapper'', sub_layers = [(''_observed'', 4)]\<rparr>,
                     \<lparr>kind = ''Sequential'', sub_layers = [(''conv'', 7)]\<rparr>,
                     \<lparr>kind = ''Conv2D'', sub_layers = []\<rparr>,
                     \<lparr>kind = ''Sequential'', sub_layers = [(''conv'', 11)]\<rparr>,
                     \<lparr>kind = ''Conv2D'', sub_layers = []\<rparr>,
                     \<lparr>kind = ''QuantedLayer'', sub_layers = []\<rparr>,
                     \<lparr>kind = ''ObserveWrapper'', sub_layers = [(''_observed'', 10)]\<rparr>],
           configs = [\<lparr>bound = None, quant_kinds = [''Conv2D'']\<rparr>,
                      \<lparr>bound = Some 6, quant_kinds = []\<rparr>]\<rparr>)"





section \<open>The passes in their common form\<close>

lemma convert_children_walk:
  "convert_children rec config c cs replaced h =
   walk_children rec (convert_decide config c) (get_qat_layer config c) cs replaced h"
  by (induction cs arbitrary: replaced h)
     (auto simp: convert_decide_def split: sum.splits bool.splits option.splits)

lemma observe_children_walk:
  "observe_children rec config c cs replaced h =
   walk_children rec (observe_decide config c) (get_observe_wrapper config c) cs replaced h"
  by (induction cs arbitrary: replaced h)
     (auto simp: observe_decide_def split: sum.splits bool.splits option.splits)

lemma convert_walk:
  "convert_to_quant_layers k config c m h =
   walk k (convert_decide config c) (get_qat_layer config c) m h"
proof (induction k arbitrary: m h)
  case 0
  show ?case by simp
next
  case (Suc k)
  have eq: "convert_to_quant_layers k config c =
            walk k (convert_decide config c) (get_qat_layer config c)"
    using Suc.IH by (intro ext)
  show ?case by (simp add: eq convert_children_walk split: option.splits)
qed

lemma observe_walk:
  "insert_activation_observers k config c m h =
   walk k (observe_decide config c) (get_observe_wrapper config c) m h"
proof (induction k arbitrary: m h)
  case 0
  show ?case by simp
next
  case (Suc k)
  have eq: "insert_activation_observers k config c =
            walk k (observe_decide config c) (get_observe_wrapper config c)"
    using Suc.IH by (intro ext)
  show ?case by (simp add: eq observe_children_walk split: option.splits)
qed

section \<open>Types and child names survive every step\<close>

lemma keeps_refl: "keeps h h"
  by (simp add: keeps_def)

lemma keeps_trans: "keeps h1 h2 \<Longrightarrow> keeps h2 h3 \<Longrightarrow> keeps h1 h3"
  by (auto simp: keeps_def)

lemma prefix_nth: "prefix h h' \<Longrightarrow> a < length h \<Longrightarrow> h' ! a = h ! a"
  by (auto simp: prefix_def nth_append)

lemma prefix_keeps: "prefix h h' \<Longrightarrow> keeps h h'"
  by (auto simp: keeps_def prefix_nth prefix_length_le)

lemma fold_update_keys:
  "fst ` set rs \<subseteq> fst ` set sl \<Longrightarrow>
   map fst (fold (\<lambda>kv sl. AList.update (fst kv) (snd kv) sl) rs sl) = map fst sl"
proof (induction rs arbitrary: sl)
  case Nil
  show ?case by simp
next
  case (Cons kv rs)
  have "map fst (AList.update (fst kv) (snd kv) sl) = map fst sl"
    using Cons.prems by (simp add: update_keys)
  moreover from this have "fst ` set rs \<subseteq> fst ` set (AList.update (fst kv) (snd kv) sl)"
    using Cons.prems by (metis (no_types, lifting) insert_subset list.set(2) image_insert set_map)
  ultimately show ?case using Cons.IH by simp
qed

lemma install_keeps:
  assumes "install m rs h = Some (Inr h')" "fst ` set rs \<subseteq> fst ` set (sub_layers (h ! m))"
  shows "keeps h h'"
  using assms
  by (auto simp: install_def keeps_def nth_list_update fold_update_keys split: if_splits)

lemma update_keys_subset: "fst ` set (AList.update k v al) \<subseteq> insert k (fst ` set al)"
  by (induction al) auto

lemma walk_children_keeps:
  assumes build: "allocates_only build"
    and rec: "\<And>a h h'. rec a h = Some (Inr h') \<Longrightarrow> keeps h h'"
  shows "walk_children rec decide build cs rs h = Some (Inr (rs', h')) \<Longrightarrow>
         keeps h h' \<and> fst ` set rs' \<subseteq> fst ` set rs \<union> fst ` set cs"
proof (induction cs arbitrary: rs h)
  case Nil
  then show ?case by (simp add: keeps_refl)
next
  case (Cons nc cs)
  from Cons.prems obtain act where d: "decide h (snd nc) = Some (Inr act)"
    by (auto split: option.splits sum.splits)
  show ?case
  proof (cases act)
    case Skip
    with Cons.prems d have "walk_children rec decide build cs rs h = Some (Inr (rs', h'))" by simp
    from Cons.IH [OF this] show ?thesis by auto
  next
    case Descend
    with Cons.prems d obtain h1 where r: "rec (snd nc) h = Some (Inr h1)"
      and w: "walk_children rec decide build cs rs h1 = Some (Inr (rs', h'))"
      by (auto split: option.splits sum.splits)
    from Cons.IH [OF w] rec [OF r] show ?thesis by (auto intro: keeps_trans)
  next
    case Replace
    with Cons.prems d obtain r h1 where b: "build h (snd nc) = Inr (r, h1)"
      and w: "walk_children rec decide build cs (AList.update (fst nc) r rs) h1 = Some (Inr (rs', h'))"
      by (auto split: option.splits sum.splits)
    from b build have "keeps h h1" by (auto simp: allocates_only_def intro: prefix_keeps)
    from Cons.IH [OF w] have k2: "keeps h1 h'"
      and s: "fst ` set rs' \<subseteq> fst ` set (AList.update (fst nc) r rs) \<union> fst ` set cs"
      by auto
    from s update_keys_subset [of "fst nc" r rs]
    have "fst ` set rs' \<subseteq> insert (fst nc) (fst ` set rs) \<union> fst ` set cs" by blast
    with \<open>keeps h h1\<close> k2 show ?thesis by (auto intro: keeps_trans)
  qed
qed

lemma walk_keeps:
  assumes build: "allocates_only build"
  shows "walk k decide build m h = Some (Inr h') \<Longrightarrow> keeps h h'"
proof (induction k arbitrary: m h h')
  case 0
  then show ?case by simp
next
  case (Suc k)
  from Suc.prems obtain rs h1 where m: "m < length h"
    and w: "walk_children (walk k decide build) decide build (sub_layers (h ! m)) [] h = Some (Inr (rs, h1))"
    and i: "install m rs h1 = Some (Inr h')"
    by (auto simp: named_children_def split: option.splits sum.splits if_splits)
  from walk_children_keeps [OF build Suc.IH w]
  have k1: "keeps h h1" and ks: "fst ` set rs \<subseteq> fst ` set (sub_layers (h ! m))" by auto
  from k1 m have "map fst (sub_layers (h1 ! m)) = map fst (sub_layers (h ! m))"
    by (simp add: keeps_def)
  then have "fst ` set (sub_layers (h1 ! m)) = fst ` set (sub_layers (h ! m))"
    by (metis set_map)
  with ks install_keeps [OF i] k1 show ?case by (auto intro: keeps_trans)
qed

section \<open>The example, evaluated\<close>

lemma demo_qat_allocates: "allocates_only (get_qat_layer demo_config c)"
  by (simp add: allocates_only_def demo_config_def)

lemma demo_wrapper_allocates: "allocates_only (get_observe_wrapper demo_config c)"
  by (simp add: allocates_only_def demo_config_def)

lemma demo_specify_keeps: "specify demo_config c h a = Inr (c', h') \<Longrightarrow> keeps h h'"
  by (auto simp: demo_config_def keeps_refl)

lemma demo_quantize_inplace:
  "quantize 3 demo_config demo_deepcopy \<lparr>qat_config = 0\<rparr> 0 True demo_world =
   Some (Inr (0, demo_quantized))"
  by code_simp

section \<open>Child names\<close>

text \<open>
  Claim C10. Both passes install replacements only under names that the node already
  has: when \<open>quantize\<close> returns, every layer of the working model (the caller's model
  when \<open>inplace\<close> is true, the deep copy otherwise) has the child names, in the order,
  that it had when the passes started. The constructors of the configuration are assumed
  to allocate only, and \<open>_specify\<close> to rename no child.
\<close>

theorem quantize_keeps_child_names:
  assumes q: "quantize k config deepcopy self model inplace w = Some (Inr (m, w'))"
    and qat: "\<forall>c. allocates_only (get_qat_layer config c)"
    and obs: "\<forall>c. allocates_only (get_observe_wrapper config c)"
    and spec: "\<forall>c h a c' h'. specify config c h a = Inr (c', h') \<longrightarrow> keeps h h'"
  shows "\<exists>h0. (if inplace then m = model \<and> h0 = layers w
               else deepcopy (layers w) model = Inr (m, h0)) \<and>
              (\<forall>a<length h0.
                 map fst (sub_layers (layers w' ! a)) = map fst (sub_layers (h0 ! a)))"
proof -
  from q obtain h0 c h1 h2 h3 where
    work: "(if inplace then Inr (model, layers w) else deepcopy (layers w) model) = Inr (m, h0)"
    and s: "specify config (configs w ! qat_config self) h0 m = Inr (c, h1)"
    and p1: "convert_to_quant_layers k config c m h1 = Some (Inr h2)"
    and p2: "insert_activation_observers k config c m h2 = Some (Inr h3)"
    and w': "layers w' = h3"
    by (auto simp: quantize_def split: if_splits sum.splits option.splits)
  from s spec have "keeps h0 h1" by blast
  moreover from p1 qat have "keeps h1 h2"
    by (auto simp: convert_walk intro: walk_keeps)
  moreover from p2 obs have "keeps h2 h3"
    by (auto simp: observe_walk intro: walk_keeps)
  ultimately have "keeps h0 h3" by (blast intro: keeps_trans)
  then have "\<forall>a<length h0. map fst (sub_layers (layers w' ! a)) = map fst (sub_layers (h0 ! a))"
    by (simp add: keeps_def w')
  with work show ?thesis by (cases inplace) auto
qed

theorem quantize_keeps_child_names_witness:
  "quantize 3 demo_config demo_deepcopy \<lparr>qat_config = 0\<rparr> 0 True demo_world =
     Some (Inr (0, demo_quantized)) \<and>
   map fst (sub_layers (layers demo_quantized ! 0)) = map fst (sub_layers (layers demo_world ! 0))"
proof -
  have alloc1: "\<forall>c. allocates_only (get_qat_layer demo_config c)"
    by (simp add: demo_qat_allocates)
  have alloc2: "\<forall>c. allocates_only (get_observe_wrapper demo_config c)"
    by (simp add: demo_wrapper_allocates)
  have spec: "\<forall>c h a c' h'. specify demo_config c h a = Inr (c', h') \<longrightarrow> keeps h h'"
    by (blast intro: demo_specify_keeps)
  from quantize_keeps_child_names [OF demo_quantize_inplace alloc1 alloc2 spec]
  have "\<forall>a<length (layers demo_world).
          map fst (sub_layers (layers demo_quantized ! a)) =
          map fst (sub_layers (layers demo_world ! a))"
    by simp
  moreover have "0 < length (layers demo_world)"
    by (simp add: demo_world_def demo_heap_def)
  ultimately show ?thesis using demo_quantize_inplace by blast
qed

section \<open>A pass changes only what is below the layer it is given\<close>

lemma touches_only_refl: "closed R h \<Longrightarrow> touches_only R h h"
  by (simp add: touches_only_def)

lemma touches_only_trans:
  assumes "touches_only R h h1" "touches_only (R \<union> {length h..<length h1}) h1 h'"
  shows "touches_only R h h'"
proof -
  from assms have l: "length h \<le> length h1" "length h1 \<le> length h'"
    by (auto simp: touches_only_def)
  then have eq: "R \<union> {length h..<length h1} \<union> {length h1..<length h'} = R \<union> {length h..<length h'}"
    by auto
  have "\<forall>a<length h. a \<notin> R \<longrightarrow> h' ! a = h ! a"
  proof (intro allI impI)
    fix a assume a: "a < length h" "a \<notin> R"
    with l have "a < length h1" "a \<notin> R \<union> {length h..<length h1}" by auto
    with assms(2) have "h' ! a = h1 ! a" by (simp add: touches_only_def)
    with assms(1) a show "h' ! a = h ! a" by (simp add: touches_only_def)
  qed
  with assms l eq show ?thesis by (simp add: touches_only_def)
qed

lemma build_touches_only:
  assumes bf: "builds_fresh build" and b: "build h a = Inr (r, h1)"
    and cl: "closed R h" and a: "a \<in> R"
  shows "touches_only R h h1 \<and> r \<in> R \<union> {length h..<length h1}"
proof -
  from bf b have p: "prefix h h1" and r: "r < length h1" "r = a \<or> length h \<le> r"
    and new0: "\<forall>b. length h \<le> b \<and> b < length h1 \<longrightarrow>
           (\<forall>d \<in> snd ` set (sub_layers (h1 ! b)). d = a \<or> (length h \<le> d \<and> d < length h1))"
    unfolding builds_fresh_def by blast+
  have new: "snd ` set (sub_layers (h1 ! b)) \<subseteq> insert a {length h..<length h1}"
    if "length h \<le> b" "b < length h1" for b
  proof
    fix d assume "d \<in> snd ` set (sub_layers (h1 ! b))"
    with new0 that have "d = a \<or> (length h \<le> d \<and> d < length h1)" by blast
    then show "d \<in> insert a {length h..<length h1}" by auto
  qed
  from p have len: "length h \<le> length h1" by (rule prefix_length_le)
  have old: "\<And>x. x < length h \<Longrightarrow> h1 ! x = h ! x" using p by (rule prefix_nth)
  have "closed (R \<union> {length h..<length h1}) h1"
    unfolding closed_def
  proof (intro ballI conjI)
    fix x assume x: "x \<in> R \<union> {length h..<length h1}"
    show "x < length h1" using x cl len by (auto simp: closed_def)
    show "snd ` set (sub_layers (h1 ! x)) \<subseteq> R \<union> {length h..<length h1}"
    proof (cases "x < length h")
      case True
      with x cl have "x \<in> R" by auto
      with cl old [OF True] show ?thesis by (auto simp: closed_def)
    next
      case False
      with x have "length h \<le> x" "x < length h1" using cl by (auto simp: closed_def)
      from new [OF this] a show ?thesis by blast
    qed
  qed
  with len old r a show ?thesis by (auto simp: touches_only_def)
qed

lemma fold_update_values:
  "snd ` set (fold (\<lambda>kv sl. AList.update (fst kv) (snd kv) sl) rs sl) \<subseteq> snd ` set sl \<union> snd ` set rs"
proof (induction rs arbitrary: sl)
  case Nil
  show ?case by simp
next
  case (Cons kv rs)
  have "snd ` set (AList.update (fst kv) (snd kv) sl) \<subseteq> insert (snd kv) (snd ` set sl)"
    by (induction sl) auto
  with Cons.IH [of "AList.update (fst kv) (snd kv) sl"] show ?case by auto
qed

lemma install_touches_only:
  assumes i: "install m rs h = Some (Inr h')" and cl: "closed R h" and m: "m \<in> R"
    and rs: "snd ` set rs \<subseteq> R"
  shows "touches_only R h h'"
proof -
  from i have ml: "m < length h"
    and h': "h' = h[m := (h ! m)\<lparr>sub_layers :=
               fold (\<lambda>kv sl. AList.update (fst kv) (snd kv) sl) rs (sub_layers (h ! m))\<rparr>]"
    by (auto simp: install_def split: if_splits)
  have "closed R h'"
    unfolding closed_def
  proof (intro ballI conjI)
    fix x assume x: "x \<in> R"
    show "x < length h'" using x cl h' by (auto simp: closed_def)
    show "snd ` set (sub_layers (h' ! x)) \<subseteq> R"
    proof (cases "x = m")
      case True
      with ml h' have "sub_layers (h' ! x) =
          fold (\<lambda>kv sl. AList.update (fst kv) (snd kv) sl) rs (sub_layers (h ! m))" by simp
      moreover have "snd ` set (sub_layers (h ! m)) \<subseteq> R" using cl m by (simp add: closed_def)
      ultimately show ?thesis
        using fold_update_values [of rs "sub_layers (h ! m)"] rs by (simp only:) blast
    next
      case False
      with h' have "h' ! x = h ! x" by simp
      with cl x show ?thesis by (auto simp: closed_def)
    qed
  qed
  moreover have "\<forall>a<length h. a \<notin> R \<longrightarrow> h' ! a = h ! a"
  proof (intro allI impI)
    fix a assume "a < length h" "a \<notin> R"
    with m have "a \<noteq> m" by auto
    then show "h' ! a = h ! a" by (simp add: h')
  qed
  moreover have "length h' = length h" using h' by simp
  ultimately show ?thesis by (simp add: touches_only_def)
qed

lemma update_values_subset: "snd ` set (AList.update k v al) \<subseteq> insert v (snd ` set al)"
  by (induction al) auto

lemma walk_children_touches_only:
  assumes build: "builds_fresh build"
    and rec: "\<And>R a h h'. closed R h \<Longrightarrow> a \<in> R \<Longrightarrow> rec a h = Some (Inr h') \<Longrightarrow> touches_only R h h'"
  shows "closed R h \<Longrightarrow> snd ` set cs \<subseteq> R \<Longrightarrow>
         walk_children rec decide build cs rs h = Some (Inr (rs', h')) \<Longrightarrow>
         touches_only R h h' \<and> snd ` set rs' \<subseteq> snd ` set rs \<union> R \<union> {length h..<length h'}"
proof (induction cs arbitrary: R rs h)
  case Nil
  then show ?case by (auto simp: touches_only_refl)
next
  case (Cons nc cs)
  from Cons.prems obtain act where d: "decide h (snd nc) = Some (Inr act)"
    by (auto split: option.splits sum.splits)
  from Cons.prems have nc: "snd nc \<in> R" and cs: "snd ` set cs \<subseteq> R" by auto
  show ?case
  proof (cases act)
    case Skip
    with Cons.prems d have "walk_children rec decide build cs rs h = Some (Inr (rs', h'))" by simp
    from Cons.IH [OF Cons.prems(1) cs this] show ?thesis .
  next
    case Descend
    with Cons.prems d obtain h1 where r: "rec (snd nc) h = Some (Inr h1)"
      and w: "walk_children rec decide build cs rs h1 = Some (Inr (rs', h'))"
      by (auto split: option.splits sum.splits)
    let ?R1 = "R \<union> {length h..<length h1}"
    from rec [OF Cons.prems(1) nc r] have t1: "touches_only R h h1" .
    then have cl1: "closed ?R1 h1" and len: "length h \<le> length h1" by (auto simp: touches_only_def)
    from cs have cs1: "snd ` set cs \<subseteq> ?R1" by auto
    from Cons.IH [OF cl1 cs1 w]
    have t2: "touches_only ?R1 h1 h'"
      and v: "snd ` set rs' \<subseteq> snd ` set rs \<union> ?R1 \<union> {length h1..<length h'}" by auto
    from t2 have "length h1 \<le> length h'" by (simp add: touches_only_def)
    with len v have "snd ` set rs' \<subseteq> snd ` set rs \<union> R \<union> {length h..<length h'}" by auto
    with touches_only_trans [OF t1 t2] show ?thesis by simp
  next
    case Replace
    with Cons.prems d obtain r h1 where b: "build h (snd nc) = Inr (r, h1)"
      and w: "walk_children rec decide build cs (AList.update (fst nc) r rs) h1 = Some (Inr (rs', h'))"
      by (auto split: option.splits sum.splits)
    let ?R1 = "R \<union> {length h..<length h1}"
    from build_touches_only [OF build b Cons.prems(1) nc]
    have t1: "touches_only R h h1" and r: "r \<in> ?R1" by auto
    then have cl1: "closed ?R1 h1" and len: "length h \<le> length h1" by (auto simp: touches_only_def)
    from cs have cs1: "snd ` set cs \<subseteq> ?R1" by auto
    from r update_values_subset [of "fst nc" r rs]
    have rs1: "snd ` set (AList.update (fst nc) r rs) \<subseteq> snd ` set rs \<union> ?R1" by blast
    from Cons.IH [OF cl1 cs1 w]
    have t2: "touches_only ?R1 h1 h'"
      and v: "snd ` set rs' \<subseteq> snd ` set (AList.update (fst nc) r rs) \<union> ?R1 \<union> {length h1..<length h'}"
      by auto
    from t2 have len1: "length h1 \<le> length h'" by (simp add: touches_only_def)
    from v rs1 have "snd ` set rs' \<subseteq> snd ` set rs \<union> ?R1 \<union> {length h1..<length h'}" by blast
    moreover from len len1 have "?R1 \<union> {length h1..<length h'} = R \<union> {length h..<length h'}"
      by auto
    ultimately have "snd ` set rs' \<subseteq> snd ` set rs \<union> R \<union> {length h..<length h'}"
      by (simp add: Un_assoc)
    with touches_only_trans [OF t1 t2] show ?thesis by simp
  qed
qed

lemma walk_touches_only:
  assumes build: "builds_fresh build"
  shows "closed R h \<Longrightarrow> m \<in> R \<Longrightarrow> walk k decide build m h = Some (Inr h') \<Longrightarrow> touches_only R h h'"
proof (induction k arbitrary: R m h h')
  case 0
  then show ?case by simp
next
  case (Suc k)
  from Suc.prems obtain rs h1 where m: "m < length h"
    and w: "walk_children (walk k decide build) decide build (sub_layers (h ! m)) [] h = Some (Inr (rs, h1))"
    and i: "install m rs h1 = Some (Inr h')"
    by (auto simp: named_children_def split: option.splits sum.splits if_splits)
  let ?R1 = "R \<union> {length h..<length h1}"
  from Suc.prems have cs: "snd ` set (sub_layers (h ! m)) \<subseteq> R" by (auto simp: closed_def)
  from walk_children_touches_only [OF build Suc.IH Suc.prems(1) cs w]
  have t1: "touches_only R h h1" and rs: "snd ` set rs \<subseteq> ?R1" by auto
  then have cl1: "closed ?R1 h1" by (simp add: touches_only_def)
  from Suc.prems(2) have "m \<in> ?R1" by simp
  from install_touches_only [OF i cl1 this rs] have t2: "touches_only ?R1 h1 h'" .
  from touches_only_trans [OF t1 t2] show ?case .
qed

section \<open>The caller's model when \<open>inplace\<close> is false\<close>

lemma demo_quantize_copy:
  "quantize 3 demo_config demo_deepcopy \<lparr>qat_config = 0\<rparr> 0 False demo_world =
   Some (Inr (6, demo_copied))"
  by code_simp

lemma demo_qat_builds_fresh: "builds_fresh (get_qat_layer demo_config c)"
  by (simp add: builds_fresh_def demo_config_def nth_append)

lemma demo_wrapper_builds_fresh: "builds_fresh (get_observe_wrapper demo_config c)"
  by (auto simp: builds_fresh_def demo_config_def nth_append)

lemma demo_specify_touches_only:
  "specify demo_config c h a = Inr (c', h') \<Longrightarrow> closed R h \<Longrightarrow> touches_only R h h'"
  by (auto simp: demo_config_def touches_only_refl)

lemma demo_deepcopy_closed:
  "demo_deepcopy (layers demo_world) 0 = Inr (m, h0) \<Longrightarrow>
   prefix (layers demo_world) h0 \<and> m \<in> {length (layers demo_world)..<length h0} \<and>
   closed {length (layers demo_world)..<length h0} h0"
  by (auto simp: demo_deepcopy_def demo_world_def demo_heap_def closed_def nth_Cons'
       split: if_splits)

text \<open>
  Claim C7. With \<open>inplace = False\<close> every layer object that existed before the call is
  the same after it: same type, same child references. \<open>quantize\<close> returns a new object.
  The deep copy is assumed to consist of new layers that refer to new layers only;
  \<open>_specify\<close> and the two constructors are assumed to change no layer outside the model
  they are given.
\<close>

theorem quantize_copy_leaves_original:
  assumes q: "quantize k config deepcopy self model False w = Some (Inr (m, w'))"
    and copy: "\<forall>m h0. deepcopy (layers w) model = Inr (m, h0) \<longrightarrow>
                 prefix (layers w) h0 \<and> m \<in> {length (layers w)..<length h0} \<and>
                 closed {length (layers w)..<length h0} h0"
    and spec: "\<forall>c h a c' h' R. specify config c h a = Inr (c', h') \<longrightarrow> closed R h \<longrightarrow> a \<in> R \<longrightarrow>
                 touches_only R h h'"
    and qat: "\<forall>c. builds_fresh (get_qat_layer config c)"
    and obs: "\<forall>c. builds_fresh (get_observe_wrapper config c)"
  shows "length (layers w) \<le> m \<and> length (layers w) \<le> length (layers w') \<and>
         (\<forall>a<length (layers w). layers w' ! a = layers w ! a)"
proof -
  let ?h = "layers w"
  from q obtain h0 c h1 h2 h3 where
    d: "deepcopy ?h model = Inr (m, h0)"
    and s: "specify config (configs w ! qat_config self) h0 m = Inr (c, h1)"
    and p1: "convert_to_quant_layers k config c m h1 = Some (Inr h2)"
    and p2: "insert_activation_observers k config c m h2 = Some (Inr h3)"
    and w': "layers w' = h3"
    by (auto simp: quantize_def split: if_splits sum.splits option.splits)
  let ?R = "{length ?h..<length h0}"
  from copy d have p: "prefix ?h h0" and m: "m \<in> ?R" and cl: "closed ?R h0" by blast+
  from p have l0: "length ?h \<le> length h0" by (rule prefix_length_le)
  from spec s cl m have t1: "touches_only ?R h0 h1" by blast
  let ?R1 = "?R \<union> {length h0..<length h1}"
  from t1 have cl1: "closed ?R1 h1" and l1: "length h0 \<le> length h1" by (auto simp: touches_only_def)
  from m have m1: "m \<in> ?R1" by simp
  from p1 have "walk k (convert_decide config c) (get_qat_layer config c) m h1 = Some (Inr h2)"
    by (simp add: convert_walk)
  from walk_touches_only [OF _ cl1 m1 this] qat have t2: "touches_only ?R1 h1 h2" by blast
  let ?R2 = "?R1 \<union> {length h1..<length h2}"
  from t2 have cl2: "closed ?R2 h2" and l2: "length h1 \<le> length h2" by (auto simp: touches_only_def)
  from m1 have m2: "m \<in> ?R2" by simp
  from p2 have "walk k (observe_decide config c) (get_observe_wrapper config c) m h2 = Some (Inr h3)"
    by (simp add: observe_walk)
  from walk_touches_only [OF _ cl2 m2 this] obs have t3: "touches_only ?R2 h2 h3" by blast
  have "?R2 = ?R \<union> {length h0..<length h2}" using l1 l2 by auto
  with t3 have "touches_only (?R \<union> {length h0..<length h2}) h2 h3" by simp
  from touches_only_trans [OF touches_only_trans [OF t1 t2] this]
  have t: "touches_only ?R h0 h3" .
  have "\<forall>a<length ?h. h3 ! a = ?h ! a"
  proof (intro allI impI)
    fix a assume a: "a < length ?h"
    with l0 t have "h3 ! a = h0 ! a" by (auto simp: touches_only_def)
    with a p show "h3 ! a = ?h ! a" by (simp add: prefix_nth)
  qed
  moreover from t l0 have "length ?h \<le> length h3" by (simp add: touches_only_def)
  ultimately show ?thesis using m w' by simp
qed

theorem quantize_copy_leaves_original_witness:
  "quantize 3 demo_config demo_deepcopy \<lparr>qat_config = 0\<rparr> 0 False demo_world =
     Some (Inr (6, demo_copied)) \<and>
   layers demo_copied ! 0 = layers demo_world ! 0 \<and>
   layers demo_copied ! 4 = layers demo_world ! 4"
proof -
  have copy: "\<forall>m h0. demo_deepcopy (layers demo_world) 0 = Inr (m, h0) \<longrightarrow>
                 prefix (layers demo_world) h0 \<and> m \<in> {length (layers demo_world)..<length h0} \<and>
                 closed {length (layers demo_world)..<length h0} h0"
    using demo_deepcopy_closed by blast
  have spec: "\<forall>c h a c' h' R. specify demo_config c h a = Inr (c', h') \<longrightarrow> closed R h \<longrightarrow> a \<in> R \<longrightarrow>
                 touches_only R h h'"
    using demo_specify_touches_only by blast
  have qat: "\<forall>c. builds_fresh (get_qat_layer demo_config c)"
    by (simp add: demo_qat_builds_fresh)
  have obs: "\<forall>c. builds_fresh (get_observe_wrapper demo_config c)"
    by (simp add: demo_wrapper_builds_fresh)
  from quantize_copy_leaves_original [OF demo_quantize_copy copy spec qat obs]
  have "\<forall>a<length (layers demo_world). layers demo_copied ! a = layers demo_world ! a"
    by simp
  moreover have "0 < length (layers demo_world)" "4 < length (layers demo_world)"
    by (simp_all add: demo_world_def demo_heap_def)
  ultimately show ?thesis using demo_quantize_copy by blast
qed

section \<open>Trees in the store\<close>

lemma those_map_Some:
  "those (map f xs) = Some ys \<longleftrightarrow> list_all2 (\<lambda>x y. f x = Some y) xs ys"
proof (induction xs arbitrary: ys)
  case Nil
  show ?case by auto
next
  case (Cons x xs)
  show ?case by (cases ys) (auto simp: Cons.IH split: option.splits)
qed

lemma nth_concat_subset:
  assumes "i < length dss"
  shows "set (dss ! i) \<subseteq> set (concat dss)"
proof
  fix x assume "x \<in> set (dss ! i)"
  with nth_mem [OF assms] show "x \<in> set (concat dss)" by auto
qed

lemma distinct_concat_nth:
  assumes "distinct (concat dss)" "i < length dss"
  shows "distinct (dss ! i)"
  using assms(1) nth_mem [OF assms(2)] by (simp add: distinct_concat_iff)

lemma subtree_Suc:
  "subtree (Suc k) h a = Some as \<longleftrightarrow>
     a < length h \<and>
     (\<exists>dss. list_all2 (\<lambda>nc bs. subtree k h (snd nc) = Some bs) (sub_layers (h ! a)) dss \<and>
            as = a # concat dss)"
  by (auto simp: those_map_Some)

lemma subtree_closed:
  "subtree k h a = Some as \<Longrightarrow> a \<in> set as \<and> closed (set as) h"
proof (induction k arbitrary: a as)
  case 0
  then show ?case by simp
next
  case (Suc k)
  from Suc.prems obtain dss where a: "a < length h"
    and sub: "list_all2 (\<lambda>nc bs. subtree k h (snd nc) = Some bs) (sub_layers (h ! a)) dss"
    and as: "as = a # concat dss"
    unfolding subtree_Suc by blast
  have ch: "snd ` set (sub_layers (h ! a)) \<subseteq> set (concat dss)"
  proof
    fix c assume "c \<in> snd ` set (sub_layers (h ! a))"
    then obtain nc where nc: "nc \<in> set (sub_layers (h ! a))" "c = snd nc" by auto
    then obtain i where i: "i < length (sub_layers (h ! a))" "sub_layers (h ! a) ! i = nc"
      by (auto simp: in_set_conv_nth)
    with sub have "subtree k h (snd nc) = Some (dss ! i)" and il: "i < length dss"
      by (auto dest: list_all2_nthD list_all2_lengthD)
    from Suc.IH [OF this(1)] nc have "c \<in> set (dss ! i)" by simp
    with nth_concat_subset [OF il] show "c \<in> set (concat dss)" by auto
  qed
  have "closed (set as) h"
    unfolding closed_def
  proof (intro ballI)
    fix x assume "x \<in> set as"
    then consider "x = a" | bs where "bs \<in> set dss" "x \<in> set bs" using as by auto
    then show "x < length h \<and> snd ` set (sub_layers (h ! x)) \<subseteq> set as"
    proof cases
      case 1
      with a ch as show ?thesis by auto
    next
      case 2
      then obtain i where i: "i < length dss" "dss ! i = bs" by (auto simp: in_set_conv_nth)
      with sub have "subtree k h (snd (sub_layers (h ! a) ! i)) = Some bs"
        by (auto dest: list_all2_nthD2)
      from Suc.IH [OF this] have "closed (set bs) h" by simp
      with 2 have "x < length h" "snd ` set (sub_layers (h ! x)) \<subseteq> set bs"
        by (auto simp: closed_def)
      with 2 as show ?thesis by auto
    qed
  qed
  with as show ?case by simp
qed

lemma subtree_cong:
  "subtree k h a = Some as \<Longrightarrow> length h \<le> length h' \<Longrightarrow> \<forall>x\<in>set as. h' ! x = h ! x \<Longrightarrow>
   subtree k h' a = Some as"
proof (induction k arbitrary: a as)
  case 0
  then show ?case by simp
next
  case (Suc k)
  from Suc.prems(1) obtain dss where a: "a < length h"
    and sub: "list_all2 (\<lambda>nc bs. subtree k h (snd nc) = Some bs) (sub_layers (h ! a)) dss"
    and as: "as = a # concat dss"
    unfolding subtree_Suc by blast
  from Suc.prems as have eq: "h' ! a = h ! a" by simp
  have "list_all2 (\<lambda>nc bs. subtree k h' (snd nc) = Some bs) (sub_layers (h ! a)) dss"
  proof (rule list_all2_all_nthI)
    show "length (sub_layers (h ! a)) = length dss" using sub by (rule list_all2_lengthD)
  next
    fix i assume i: "i < length (sub_layers (h ! a))"
    with sub have s: "subtree k h (snd (sub_layers (h ! a) ! i)) = Some (dss ! i)"
      and il: "i < length dss"
      by (auto dest: list_all2_nthD list_all2_lengthD)
    from il have "set (dss ! i) \<subseteq> set (concat dss)" by (rule nth_concat_subset)
    with Suc.prems(3) as have "\<forall>x\<in>set (dss ! i). h' ! x = h ! x" by auto
    from Suc.IH [OF s Suc.prems(2) this]
    show "subtree k h' (snd (sub_layers (h ! a) ! i)) = Some (dss ! i)" .
  qed
  with a as eq Suc.prems(2) show ?case unfolding subtree_Suc by auto
qed

lemma is_tree_child:
  assumes t: "is_tree (Suc k) h m" and c: "nc \<in> set (sub_layers (h ! m))"
  shows "is_tree k h (snd nc)"
proof -
  from t obtain as where s: "subtree (Suc k) h m = Some as" and d: "distinct as"
    and n: "list_all (\<lambda>b. distinct (map fst (sub_layers (h ! b)))) as"
    by (auto simp: is_tree_def split: option.splits)
  from s obtain dss where
    sub: "list_all2 (\<lambda>nc bs. subtree k h (snd nc) = Some bs) (sub_layers (h ! m)) dss"
    and as: "as = m # concat dss"
    unfolding subtree_Suc by blast
  from c obtain i where i: "i < length (sub_layers (h ! m))" "sub_layers (h ! m) ! i = nc"
    by (auto simp: in_set_conv_nth)
  with sub have si: "subtree k h (snd nc) = Some (dss ! i)" and il: "i < length dss"
    by (auto dest: list_all2_nthD list_all2_lengthD)
  from d as have "distinct (concat dss)" by simp
  with il have "distinct (dss ! i)" by (simp add: distinct_concat_nth)
  moreover from il have "set (dss ! i) \<subseteq> set as" using as nth_concat_subset [OF il] by auto
  with n have "list_all (\<lambda>b. distinct (map fst (sub_layers (h ! b)))) (dss ! i)"
    by (auto simp: list_all_iff)
  ultimately show ?thesis using si by (simp add: is_tree_def)
qed

section \<open>What a pass does for one child of a tree\<close>

lemma closed_Un: "closed A h \<Longrightarrow> closed B h \<Longrightarrow> closed (A \<union> B) h"
  unfolding closed_def by blast

lemma subtrees_closed:
  assumes "list_all2 (\<lambda>nc bs. subtree k h (snd nc) = Some bs) cs dss"
  shows "closed (set (concat dss)) h \<and> snd ` set cs \<subseteq> set (concat dss)"
  using assms
proof (induction cs dss rule: list_all2_induct)
  case Nil
  show ?case by (simp add: closed_def)
next
  case (Cons nc cs bs dss)
  from subtree_closed [OF Cons.hyps(1)] have "snd nc \<in> set bs" "closed (set bs) h" by auto
  with Cons.IH closed_Un [of "set bs" h "set (concat dss)"] show ?case by auto
qed

lemma subtrees_cong:
  assumes "list_all2 (\<lambda>nc bs. subtree k h (snd nc) = Some bs) cs dss"
    and "length h \<le> length h'" and "\<forall>x\<in>set (concat dss). h' ! x = h ! x"
  shows "list_all2 (\<lambda>nc bs. subtree k h' (snd nc) = Some bs) cs dss"
  using assms
proof (induction cs dss rule: list_all2_induct)
  case Nil
  show ?case by simp
next
  case (Cons nc cs bs dss)
  from Cons.prems have "\<forall>x\<in>set bs. h' ! x = h ! x" by simp
  from subtree_cong [OF Cons.hyps(1) Cons.prems(1) this] Cons show ?case by simp
qed

lemma walk_children_other_name:
  "walk_children rec decide build cs rs h = Some (Inr (rs', h')) \<Longrightarrow> n \<notin> fst ` set cs \<Longrightarrow>
   map_of rs' n = map_of rs n"
proof (induction cs arbitrary: rs h)
  case Nil
  then show ?case by simp
next
  case (Cons nc cs)
  from Cons.prems obtain act where d: "decide h (snd nc) = Some (Inr act)"
    by (auto split: option.splits sum.splits)
  from Cons.prems have n: "n \<notin> fst ` set cs" "n \<noteq> fst nc" by auto
  show ?case
  proof (cases act)
    case Skip
    with Cons.prems d have "walk_children rec decide build cs rs h = Some (Inr (rs', h'))" by simp
    from Cons.IH [OF this n(1)] show ?thesis .
  next
    case Descend
    with Cons.prems d obtain h1 where
      w: "walk_children rec decide build cs rs h1 = Some (Inr (rs', h'))"
      by (auto split: option.splits sum.splits)
    from Cons.IH [OF this n(1)] show ?thesis .
  next
    case Replace
    with Cons.prems d obtain r h1 where
      w: "walk_children rec decide build cs (AList.update (fst nc) r rs) h1 = Some (Inr (rs', h'))"
      by (auto split: option.splits sum.splits)
    from Cons.IH [OF this n(1)] n(2) show ?thesis by (simp add: update_conv')
  qed
qed

text \<open>The first step of a loop, taken apart.\<close>

lemma walk_children_Cons:
  assumes "walk_children rec decide build (nc # cs) rs h = Some (Inr (rs', h'))"
  obtains act h1 r where "decide h (snd nc) = Some (Inr act)"
    and "step_of rec build act (snd nc) h h1 r"
    and "walk_children rec decide build cs
           (case r of None \<Rightarrow> rs | Some r' \<Rightarrow> AList.update (fst nc) r' rs) h1 = Some (Inr (rs', h'))"
proof -
  from assms obtain act where d: "decide h (snd nc) = Some (Inr act)"
    by (auto split: option.splits sum.splits)
  show thesis
  proof (cases act)
    case Skip
    with assms d have "walk_children rec decide build cs rs h = Some (Inr (rs', h'))" by simp
    with that [of act h None] d Skip show thesis by (simp add: step_of_def)
  next
    case Descend
    with assms d obtain h1 where "rec (snd nc) h = Some (Inr h1)"
      and "walk_children rec decide build cs rs h1 = Some (Inr (rs', h'))"
      by (auto split: option.splits sum.splits)
    with that [of act h1 None] d Descend show thesis by (simp add: step_of_def)
  next
    case Replace
    with assms d obtain r h1 where "build h (snd nc) = Inr (r, h1)"
      and "walk_children rec decide build cs (AList.update (fst nc) r rs) h1 = Some (Inr (rs', h'))"
      by (auto split: option.splits sum.splits)
    with that [of act h1 "Some r"] d Replace show thesis by (simp add: step_of_def)
  qed
qed

lemma step_of_frame:
  assumes build: "builds_fresh build"
    and rect: "\<And>R a h h'. closed R h \<Longrightarrow> a \<in> R \<Longrightarrow> rec a h = Some (Inr h') \<Longrightarrow> touches_only R h h'"
    and reck: "\<And>a h h'. rec a h = Some (Inr h') \<Longrightarrow> keeps h h'"
    and s: "step_of rec build act a h h1 r" and sub: "subtree k h a = Some bs"
  shows "keeps h h1 \<and> length h \<le> length h1 \<and> (\<forall>x<length h. x \<notin> set bs \<longrightarrow> h1 ! x = h ! x) \<and>
         (act \<noteq> Descend \<longrightarrow> (\<forall>x<length h. h1 ! x = h ! x))"
proof (cases act)
  case Skip
  with s show ?thesis by (simp add: step_of_def keeps_refl)
next
  case Descend
  with s have r: "rec a h = Some (Inr h1)" by (simp add: step_of_def)
  from subtree_closed [OF sub] have "a \<in> set bs" "closed (set bs) h" by auto
  from rect [OF this(2,1) r] reck [OF r] Descend show ?thesis by (simp add: touches_only_def)
next
  case Replace
  with s obtain r' where "build h a = Inr (r', h1)" by (auto simp: step_of_def split: option.splits)
  with build have "prefix h h1" by (auto simp: builds_fresh_def)
  with Replace show ?thesis by (simp add: prefix_keeps prefix_nth prefix_length_le)
qed

lemma walk_children_child:
  assumes build: "builds_fresh build"
    and rect: "\<And>R a h h'. closed R h \<Longrightarrow> a \<in> R \<Longrightarrow> rec a h = Some (Inr h') \<Longrightarrow> touches_only R h h'"
    and reck: "\<And>a h h'. rec a h = Some (Inr h') \<Longrightarrow> keeps h h'"
  shows "list_all2 (\<lambda>nc bs. subtree k h (snd nc) = Some bs) cs dss \<Longrightarrow>
         distinct (concat dss) \<Longrightarrow> distinct (map fst cs) \<Longrightarrow>
         walk_children rec decide build cs rs h = Some (Inr (rs', h')) \<Longrightarrow> i < length cs \<Longrightarrow>
         \<exists>ha hb act r. keeps h ha \<and> (\<forall>x\<in>set (dss ! i). ha ! x = h ! x) \<and>
            decide ha (snd (cs ! i)) = Some (Inr act) \<and>
            step_of rec build act (snd (cs ! i)) ha hb r \<and>
            map_of rs' (fst (cs ! i)) = (case r of None \<Rightarrow> map_of rs (fst (cs ! i)) | Some r' \<Rightarrow> Some r') \<and>
            (\<forall>x\<in>set (dss ! i). h' ! x = (if act = Descend then hb ! x else h ! x)) \<and>
            length h \<le> length hb \<and>
            (\<forall>x<length hb. x \<notin> set (concat dss) \<longrightarrow> h' ! x = hb ! x) \<and>
            length hb \<le> length h'"
proof (induction cs arbitrary: dss rs h i)
  case Nil
  then show ?case by simp
next
  case (Cons nc cs)
  from Cons.prems(1) obtain bs dss' where dss: "dss = bs # dss'"
    and sb: "subtree k h (snd nc) = Some bs"
    and sub': "list_all2 (\<lambda>nc bs. subtree k h (snd nc) = Some bs) cs dss'"
    by (auto simp: list_all2_Cons1)
  from Cons.prems(2) dss have dist: "distinct bs" "distinct (concat dss')"
    "set bs \<inter> set (concat dss') = {}" by auto
  from Cons.prems(3) have names: "distinct (map fst cs)" "fst nc \<notin> fst ` set cs" by auto
  from Cons.prems(4) obtain act h1 r where d: "decide h (snd nc) = Some (Inr act)"
    and st: "step_of rec build act (snd nc) h h1 r"
    and w: "walk_children rec decide build cs
              (case r of None \<Rightarrow> rs | Some r' \<Rightarrow> AList.update (fst nc) r' rs) h1 = Some (Inr (rs', h'))"
    by (rule walk_children_Cons)
  let ?rs1 = "case r of None \<Rightarrow> rs | Some r' \<Rightarrow> AList.update (fst nc) r' rs"
  from step_of_frame [OF build rect reck st sb]
  have k1: "keeps h h1" and l1: "length h \<le> length h1"
    and f1: "\<forall>x<length h. x \<notin> set bs \<longrightarrow> h1 ! x = h ! x"
    and f1': "act \<noteq> Descend \<longrightarrow> (\<forall>x<length h. h1 ! x = h ! x)" by auto
  from subtrees_closed [OF sub'] have cl': "closed (set (concat dss')) h"
    and cs': "snd ` set cs \<subseteq> set (concat dss')" by auto
  have same': "\<forall>x\<in>set (concat dss'). h1 ! x = h ! x"
  proof
    fix x assume x: "x \<in> set (concat dss')"
    with cl' have "x < length h" by (auto simp: closed_def)
    moreover from x dist have "x \<notin> set bs" by auto
    ultimately show "h1 ! x = h ! x" using f1 by simp
  qed
  from subtrees_cong [OF sub' l1 same']
  have sub1: "list_all2 (\<lambda>nc bs. subtree k h1 (snd nc) = Some bs) cs dss'" .
  show ?case
  proof (cases i)
    case 0
    from subtrees_closed [OF sub1] have cl1: "closed (set (concat dss')) h1"
      and cs1: "snd ` set cs \<subseteq> set (concat dss')" by auto
    from walk_children_touches_only [OF build rect cl1 cs1 w]
    have t: "touches_only (set (concat dss')) h1 h'" by simp
    from subtree_closed [OF sb] have clb: "closed (set bs) h" by simp
    have after: "\<forall>x\<in>set bs. h' ! x = h1 ! x"
    proof
      fix x assume x: "x \<in> set bs"
      with clb l1 have "x < length h1" by (auto simp: closed_def)
      moreover from x dist have "x \<notin> set (concat dss')" by auto
      ultimately show "h' ! x = h1 ! x" using t by (simp add: touches_only_def)
    qed
    have fin: "\<forall>x\<in>set bs. h' ! x = (if act = Descend then h1 ! x else h ! x)"
    proof
      fix x assume x: "x \<in> set bs"
      with clb have "x < length h" by (auto simp: closed_def)
      with f1' after x show "h' ! x = (if act = Descend then h1 ! x else h ! x)" by auto
    qed
    have out: "\<forall>x<length h1. x \<notin> set (concat (bs # dss')) \<longrightarrow> h' ! x = h1 ! x"
      using t by (simp add: touches_only_def)
    from t have lh1: "length h1 \<le> length h'" by (simp add: touches_only_def)
    from walk_children_other_name [OF w names(2)]
    have "map_of rs' (fst nc) = map_of ?rs1 (fst nc)" .
    then have m: "map_of rs' (fst nc) = (case r of None \<Rightarrow> map_of rs (fst nc) | Some r' \<Rightarrow> Some r')"
      by (simp add: update_conv' split: option.splits)
    have "keeps h h \<and> (\<forall>x\<in>set ((bs # dss') ! 0). h ! x = h ! x) \<and>
          decide h (snd ((nc # cs) ! 0)) = Some (Inr act) \<and>
          step_of rec build act (snd ((nc # cs) ! 0)) h h1 r \<and>
          map_of rs' (fst ((nc # cs) ! 0)) =
            (case r of None \<Rightarrow> map_of rs (fst ((nc # cs) ! 0)) | Some r' \<Rightarrow> Some r') \<and>
          (\<forall>x\<in>set ((bs # dss') ! 0). h' ! x = (if act = Descend then h1 ! x else h ! x)) \<and>
          length h \<le> length h1 \<and>
          (\<forall>x<length h1. x \<notin> set (concat (bs # dss')) \<longrightarrow> h' ! x = h1 ! x) \<and>
          length h1 \<le> length h'"
      using d st m fin l1 out lh1 by (simp add: keeps_refl cong: option.case_cong)
    then show ?thesis unfolding 0 dss by blast
  next
    case (Suc j)
    with Cons.prems(5) have j: "j < length cs" by simp
    from Cons.IH [OF sub1 dist(2) names(1) w j]
    obtain ha hb act' r' where k2: "keeps h1 ha"
      and b2: "\<forall>x\<in>set (dss' ! j). ha ! x = h1 ! x"
      and d2: "decide ha (snd (cs ! j)) = Some (Inr act')"
      and s2: "step_of rec build act' (snd (cs ! j)) ha hb r'"
      and m2: "map_of rs' (fst (cs ! j)) =
                 (case r' of None \<Rightarrow> map_of ?rs1 (fst (cs ! j)) | Some r'' \<Rightarrow> Some r'')"
      and a2: "\<forall>x\<in>set (dss' ! j). h' ! x = (if act' = Descend then hb ! x else h1 ! x)"
      and l2: "length h1 \<le> length hb"
      and o2: "\<forall>x<length hb. x \<notin> set (concat dss') \<longrightarrow> h' ! x = hb ! x"
      and l3: "length hb \<le> length h'"
      by blast
    from j sub' have jl: "j < length dss'" by (auto dest: list_all2_lengthD)
    have sub_j: "set (dss' ! j) \<subseteq> set (concat dss')" using jl by (rule nth_concat_subset)
    from j names(2) have "fst (cs ! j) \<noteq> fst nc" by (metis image_eqI nth_mem)
    then have "map_of ?rs1 (fst (cs ! j)) = map_of rs (fst (cs ! j))"
      by (simp add: update_conv' split: option.splits)
    with m2 have m: "map_of rs' (fst (cs ! j)) =
                 (case r' of None \<Rightarrow> map_of rs (fst (cs ! j)) | Some r'' \<Rightarrow> Some r'')"
      by (simp cong: option.case_cong)
    from b2 same' sub_j have b: "\<forall>x\<in>set (dss' ! j). ha ! x = h ! x" by auto
    from a2 same' sub_j have a: "\<forall>x\<in>set (dss' ! j). h' ! x = (if act' = Descend then hb ! x else h ! x)"
      by auto
    from o2 have o: "\<forall>x<length hb. x \<notin> set (concat (bs # dss')) \<longrightarrow> h' ! x = hb ! x" by simp
    have "keeps h ha \<and> (\<forall>x\<in>set ((bs # dss') ! Suc j). ha ! x = h ! x) \<and>
          decide ha (snd ((nc # cs) ! Suc j)) = Some (Inr act') \<and>
          step_of rec build act' (snd ((nc # cs) ! Suc j)) ha hb r' \<and>
          map_of rs' (fst ((nc # cs) ! Suc j)) =
            (case r' of None \<Rightarrow> map_of rs (fst ((nc # cs) ! Suc j)) | Some r'' \<Rightarrow> Some r'') \<and>
          (\<forall>x\<in>set ((bs # dss') ! Suc j). h' ! x = (if act' = Descend then hb ! x else h ! x)) \<and>
          length h \<le> length hb \<and>
          (\<forall>x<length hb. x \<notin> set (concat (bs # dss')) \<longrightarrow> h' ! x = hb ! x) \<and>
          length hb \<le> length h'"
      using keeps_trans [OF k1 k2] b d2 s2 m a l1 l2 o l3 by (simp cong: option.case_cong)
    then show ?thesis unfolding Suc dss by blast
  qed
qed

lemma step_of_keeps:
  assumes build: "allocates_only build"
    and reck: "\<And>a h h'. rec a h = Some (Inr h') \<Longrightarrow> keeps h h'"
    and s: "step_of rec build act a h h1 r"
  shows "keeps h h1"
proof (cases act)
  case Skip
  with s show ?thesis by (simp add: step_of_def keeps_refl)
next
  case Descend
  with s have "rec a h = Some (Inr h1)" by (simp add: step_of_def)
  then show ?thesis by (rule reck)
next
  case Replace
  with s obtain r' where "build h a = Inr (r', h1)" by (auto simp: step_of_def split: option.splits)
  with build show ?thesis by (auto simp: allocates_only_def intro: prefix_keeps)
qed

text \<open>The same for any store, tree or not: the decision, the step and the staged entry.\<close>

lemma walk_children_decision:
  assumes build: "allocates_only build"
    and reck: "\<And>a h h'. rec a h = Some (Inr h') \<Longrightarrow> keeps h h'"
  shows "distinct (map fst cs) \<Longrightarrow>
         walk_children rec decide build cs rs h = Some (Inr (rs', h')) \<Longrightarrow> i < length cs \<Longrightarrow>
         \<exists>ha hb act r. keeps h ha \<and>
            decide ha (snd (cs ! i)) = Some (Inr act) \<and>
            step_of rec build act (snd (cs ! i)) ha hb r \<and>
            map_of rs' (fst (cs ! i)) = (case r of None \<Rightarrow> map_of rs (fst (cs ! i)) | Some r' \<Rightarrow> Some r') \<and>
            keeps hb h'"
proof (induction cs arbitrary: rs h i)
  case Nil
  then show ?case by simp
next
  case (Cons nc cs)
  from Cons.prems(1) have names: "distinct (map fst cs)" "fst nc \<notin> fst ` set cs" by auto
  from Cons.prems(2) obtain act h1 r where d: "decide h (snd nc) = Some (Inr act)"
    and st: "step_of rec build act (snd nc) h h1 r"
    and w: "walk_children rec decide build cs
              (case r of None \<Rightarrow> rs | Some r' \<Rightarrow> AList.update (fst nc) r' rs) h1 = Some (Inr (rs', h'))"
    by (rule walk_children_Cons)
  let ?rs1 = "case r of None \<Rightarrow> rs | Some r' \<Rightarrow> AList.update (fst nc) r' rs"
  from step_of_keeps [OF build reck st] have k1: "keeps h h1" .
  show ?case
  proof (cases i)
    case 0
    from walk_children_keeps [OF build reck w] have k2: "keeps h1 h'" by simp
    from walk_children_other_name [OF w names(2)]
    have "map_of rs' (fst nc) = map_of ?rs1 (fst nc)" .
    then have m: "map_of rs' (fst nc) = (case r of None \<Rightarrow> map_of rs (fst nc) | Some r' \<Rightarrow> Some r')"
      by (simp add: update_conv' split: option.splits)
    have "keeps h h \<and> decide h (snd ((nc # cs) ! 0)) = Some (Inr act) \<and>
          step_of rec build act (snd ((nc # cs) ! 0)) h h1 r \<and>
          map_of rs' (fst ((nc # cs) ! 0)) =
            (case r of None \<Rightarrow> map_of rs (fst ((nc # cs) ! 0)) | Some r' \<Rightarrow> Some r') \<and>
          keeps h1 h'"
      using d st m k2 by (simp add: keeps_refl cong: option.case_cong)
    then show ?thesis unfolding 0 by blast
  next
    case (Suc j)
    with Cons.prems(3) have j: "j < length cs" by simp
    from Cons.IH [OF names(1) w j]
    obtain ha hb act' r' where k2: "keeps h1 ha"
      and d2: "decide ha (snd (cs ! j)) = Some (Inr act')"
      and s2: "step_of rec build act' (snd (cs ! j)) ha hb r'"
      and m2: "map_of rs' (fst (cs ! j)) =
                 (case r' of None \<Rightarrow> map_of ?rs1 (fst (cs ! j)) | Some r'' \<Rightarrow> Some r'')"
      and k3: "keeps hb h'"
      by blast
    from j names(2) have "fst (cs ! j) \<noteq> fst nc" by (metis image_eqI nth_mem)
    then have "map_of ?rs1 (fst (cs ! j)) = map_of rs (fst (cs ! j))"
      by (simp add: update_conv' split: option.splits)
    with m2 have m: "map_of rs' (fst (cs ! j)) =
                 (case r' of None \<Rightarrow> map_of rs (fst (cs ! j)) | Some r'' \<Rightarrow> Some r'')"
      by (simp cong: option.case_cong)
    have "keeps h ha \<and> decide ha (snd ((nc # cs) ! Suc j)) = Some (Inr act') \<and>
          step_of rec build act' (snd ((nc # cs) ! Suc j)) ha hb r' \<and>
          map_of rs' (fst ((nc # cs) ! Suc j)) =
            (case r' of None \<Rightarrow> map_of rs (fst ((nc # cs) ! Suc j)) | Some r'' \<Rightarrow> Some r'') \<and>
          keeps hb h'"
      using keeps_trans [OF k1 k2] d2 s2 m k3 by (simp cong: option.case_cong)
    then show ?thesis unfolding Suc by blast
  qed
qed

lemma builds_fresh_allocates: "builds_fresh build \<Longrightarrow> allocates_only build"
  by (simp add: builds_fresh_def allocates_only_def)

lemma walk_children_distinct:
  "walk_children rec decide build cs rs h = Some (Inr (rs', h')) \<Longrightarrow> distinct (map fst rs) \<Longrightarrow>
   distinct (map fst rs')"
proof (induction cs arbitrary: rs h)
  case Nil
  then show ?case by simp
next
  case (Cons nc cs)
  from Cons.prems(1) obtain act h1 r where
    w: "walk_children rec decide build cs
              (case r of None \<Rightarrow> rs | Some r' \<Rightarrow> AList.update (fst nc) r' rs) h1 = Some (Inr (rs', h'))"
    by (rule walk_children_Cons)
  from Cons.prems(2)
  have "distinct (map fst (case r of None \<Rightarrow> rs | Some r' \<Rightarrow> AList.update (fst nc) r' rs))"
    by (simp add: distinct_update split: option.splits)
  from Cons.IH [OF w this] show ?case .
qed

lemma map_of_fold_update:
  "distinct (map fst rs) \<Longrightarrow>
   map_of (fold (\<lambda>kv sl. AList.update (fst kv) (snd kv) sl) rs sl) n =
   (case map_of rs n of None \<Rightarrow> map_of sl n | Some v \<Rightarrow> Some v)"
proof (induction rs arbitrary: sl)
  case Nil
  show ?case by simp
next
  case (Cons kv rs)
  from Cons.prems have d: "distinct (map fst rs)" and k: "fst kv \<notin> fst ` set rs" by auto
  from k have none: "map_of rs (fst kv) = None" by (simp add: map_of_eq_None_iff)
  show ?case
    using Cons.IH [OF d, of "AList.update (fst kv) (snd kv) sl"] none
    by (cases kv) (auto simp: update_conv' split: option.splits)
qed

lemma install_child_at:
  assumes "install m rs h = Some (Inr h')" "distinct (map fst rs)"
  shows "child_at h' m n = (case map_of rs n of None \<Rightarrow> child_at h m n | Some v \<Rightarrow> Some v)"
  using assms by (auto simp: install_def child_at_def map_of_fold_update split: if_splits option.splits)

lemma install_other:
  assumes "install m rs h = Some (Inr h')" "x \<noteq> m"
  shows "h' ! x = h ! x"
  using assms by (auto simp: install_def split: if_splits)

lemma walk_child:
  assumes build: "builds_fresh build"
    and tree: "is_tree (Suc k) h m"
    and run: "walk (Suc k) decide build m h = Some (Inr h'')"
    and child: "(n, a) \<in> set (sub_layers (h ! m))"
  shows "\<exists>bs ha hb act r.
           subtree k h a = Some bs \<and> keeps h ha \<and> (\<forall>x\<in>set bs. ha ! x = h ! x) \<and>
           decide ha a = Some (Inr act) \<and>
           step_of (walk k decide build) build act a ha hb r \<and>
           child_at h'' m n = Some (case r of None \<Rightarrow> a | Some r' \<Rightarrow> r') \<and>
           (\<forall>x\<in>set bs. h'' ! x = (if act = Descend then hb ! x else h ! x)) \<and>
           (\<forall>x. length h \<le> x \<and> x < length hb \<longrightarrow> h'' ! x = hb ! x) \<and>
           length hb \<le> length h''"
proof -
  let ?cs = "sub_layers (h ! m)"
  from run obtain rs h1 where m: "m < length h"
    and w: "walk_children (walk k decide build) decide build ?cs [] h = Some (Inr (rs, h1))"
    and inst: "install m rs h1 = Some (Inr h'')"
    by (auto simp: named_children_def split: option.splits sum.splits if_splits)
  from tree obtain as where s: "subtree (Suc k) h m = Some as" and d: "distinct as"
    and nm: "list_all (\<lambda>b. distinct (map fst (sub_layers (h ! b)))) as"
    by (auto simp: is_tree_def split: option.splits)
  from s obtain dss where
    sub: "list_all2 (\<lambda>nc bs. subtree k h (snd nc) = Some bs) ?cs dss"
    and as: "as = m # concat dss"
    unfolding subtree_Suc by blast
  from d as have dd: "distinct (concat dss)" and mn: "m \<notin> set (concat dss)" by auto
  from nm as have names: "distinct (map fst ?cs)" by simp
  from child obtain i where i: "i < length ?cs" "?cs ! i = (n, a)"
    by (auto simp: in_set_conv_nth)
  from i sub have sa: "subtree k h a = Some (dss ! i)" and il: "i < length dss"
    by (auto dest: list_all2_nthD list_all2_lengthD)
  have rect: "\<And>R a h h'. closed R h \<Longrightarrow> a \<in> R \<Longrightarrow> walk k decide build a h = Some (Inr h') \<Longrightarrow>
                touches_only R h h'"
    by (rule walk_touches_only [OF build])
  have reck: "\<And>a h h'. walk k decide build a h = Some (Inr h') \<Longrightarrow> keeps h h'"
    by (rule walk_keeps [OF builds_fresh_allocates [OF build]])
  from subtrees_closed [OF sub] have cl: "closed (set (concat dss)) h"
    and cs: "snd ` set ?cs \<subseteq> set (concat dss)" by auto
  have "\<exists>ha hb act r. keeps h ha \<and> (\<forall>x\<in>set (dss ! i). ha ! x = h ! x) \<and>
            decide ha (snd (?cs ! i)) = Some (Inr act) \<and>
            step_of (walk k decide build) build act (snd (?cs ! i)) ha hb r \<and>
            map_of rs (fst (?cs ! i)) =
              (case r of None \<Rightarrow> map_of [] (fst (?cs ! i)) | Some r' \<Rightarrow> Some r') \<and>
            (\<forall>x\<in>set (dss ! i). h1 ! x = (if act = Descend then hb ! x else h ! x)) \<and>
            length h \<le> length hb \<and>
            (\<forall>x<length hb. x \<notin> set (concat dss) \<longrightarrow> h1 ! x = hb ! x) \<and>
            length hb \<le> length h1"
    using build rect reck sub dd names w i(1)
    by (rule walk_children_child [where rec = "walk k decide build"])
  then obtain ha hb act r where k: "keeps h ha"
    and b: "\<forall>x\<in>set (dss ! i). ha ! x = h ! x"
    and dec: "decide ha a = Some (Inr act)"
    and st: "step_of (walk k decide build) build act a ha hb r"
    and mo: "map_of rs n = (case r of None \<Rightarrow> map_of [] n | Some r' \<Rightarrow> Some r')"
    and af: "\<forall>x\<in>set (dss ! i). h1 ! x = (if act = Descend then hb ! x else h ! x)"
    and lb: "length h \<le> length hb"
    and out: "\<forall>x<length hb. x \<notin> set (concat dss) \<longrightarrow> h1 ! x = hb ! x"
    and lhb: "length hb \<le> length h1"
    unfolding i(2) fst_conv snd_conv by blast
  from walk_children_touches_only [OF build rect cl cs w]
  have t: "touches_only (set (concat dss)) h h1" by simp
  with m mn have hm: "h1 ! m = h ! m" and l1: "length h \<le> length h1"
    by (auto simp: touches_only_def)
  from walk_children_distinct [OF w] have drs: "distinct (map fst rs)" by simp
  from names child have "map_of ?cs n = Some a" by simp
  with m l1 hm have c1: "child_at h1 m n = Some a" by (simp add: child_at_def)
  from install_child_at [OF inst drs, of n] mo c1
  have ch: "child_at h'' m n = Some (case r of None \<Rightarrow> a | Some r' \<Rightarrow> r')"
    by (simp split: option.splits)
  have inside: "\<forall>x\<in>set (dss ! i). h'' ! x = (if act = Descend then hb ! x else h ! x)"
  proof
    fix x assume x: "x \<in> set (dss ! i)"
    with nth_concat_subset [OF il] mn have "x \<noteq> m" by auto
    from install_other [OF inst this] af x
    show "h'' ! x = (if act = Descend then hb ! x else h ! x)" by simp
  qed
  have new: "\<forall>x. length h \<le> x \<and> x < length hb \<longrightarrow> h'' ! x = hb ! x"
  proof (intro allI impI)
    fix x assume x: "length h \<le> x \<and> x < length hb"
    have "x \<notin> set (concat dss)"
    proof
      assume "x \<in> set (concat dss)"
      with cl have "x < length h" unfolding closed_def by blast
      with x show False by simp
    qed
    with out x have "h1 ! x = hb ! x" by simp
    moreover from x m have "x \<noteq> m" by simp
    ultimately show "h'' ! x = hb ! x" using install_other [OF inst] by simp
  qed
  from inst have "length h'' = length h1" by (auto simp: install_def split: if_splits)
  with lhb have "length hb \<le> length h''" by simp
  with sa k b dec st ch inside new show ?thesis by blast
qed

lemma install_keeps_names:
  assumes i: "install m rs h1 = Some (Inr h')" and k: "keeps h h1" and m: "m < length h"
    and rs: "fst ` set rs \<subseteq> fst ` set (sub_layers (h ! m))"
  shows "keeps h1 h'"
proof -
  from k m have "map fst (sub_layers (h1 ! m)) = map fst (sub_layers (h ! m))"
    by (simp add: keeps_def)
  then have "fst ` set (sub_layers (h1 ! m)) = fst ` set (sub_layers (h ! m))"
    by (metis set_map)
  with rs install_keeps [OF i] show ?thesis by simp
qed

lemma walk_decision:
  assumes build: "allocates_only build"
    and run: "walk (Suc k) decide build m h = Some (Inr h'')"
    and child: "(n, a) \<in> set (sub_layers (h ! m))"
    and names: "distinct (map fst (sub_layers (h ! m)))"
  shows "\<exists>ha hb act r.
           keeps h ha \<and> decide ha a = Some (Inr act) \<and>
           step_of (walk k decide build) build act a ha hb r \<and> keeps hb h'' \<and>
           (case r of None \<Rightarrow> True | Some r' \<Rightarrow> child_at h'' m n = Some r')"
proof -
  let ?cs = "sub_layers (h ! m)"
  from run obtain rs h1 where m: "m < length h"
    and w: "walk_children (walk k decide build) decide build ?cs [] h = Some (Inr (rs, h1))"
    and inst: "install m rs h1 = Some (Inr h'')"
    by (auto simp: named_children_def split: option.splits sum.splits if_splits)
  from child obtain i where i: "i < length ?cs" "?cs ! i = (n, a)"
    by (auto simp: in_set_conv_nth)
  have reck: "\<And>a h h'. walk k decide build a h = Some (Inr h') \<Longrightarrow> keeps h h'"
    by (rule walk_keeps [OF build])
  have "\<exists>ha hb act r. keeps h ha \<and>
            decide ha (snd (?cs ! i)) = Some (Inr act) \<and>
            step_of (walk k decide build) build act (snd (?cs ! i)) ha hb r \<and>
            map_of rs (fst (?cs ! i)) =
              (case r of None \<Rightarrow> map_of [] (fst (?cs ! i)) | Some r' \<Rightarrow> Some r') \<and>
            keeps hb h1"
    using build reck names w i(1)
    by (rule walk_children_decision [where rec = "walk k decide build"])
  then obtain ha hb act r where k: "keeps h ha"
    and dec: "decide ha a = Some (Inr act)"
    and st: "step_of (walk k decide build) build act a ha hb r"
    and mo: "map_of rs n = (case r of None \<Rightarrow> map_of [] n | Some r' \<Rightarrow> Some r')"
    and kb: "keeps hb h1"
    unfolding i(2) fst_conv snd_conv by blast
  from walk_children_keeps [OF build reck w]
  have k1: "keeps h h1" and ks: "fst ` set rs \<subseteq> fst ` set ?cs" by auto
  from install_keeps_names [OF inst k1 m ks] have "keeps h1 h''" .
  with kb have kb': "keeps hb h''" by (rule keeps_trans)
  from walk_children_distinct [OF w] have drs: "distinct (map fst rs)" by simp
  from install_child_at [OF inst drs, of n] mo
  have "case r of None \<Rightarrow> True | Some r' \<Rightarrow> child_at h'' m n = Some r'"
    by (simp split: option.splits)
  with k dec st kb' show ?thesis by blast
qed

lemma tree_child_valid:
  assumes "is_tree (Suc k) h m" "(n, a) \<in> set (sub_layers (h ! m))"
  shows "a < length h"
proof -
  from is_tree_child [OF assms] obtain bs where "subtree k h a = Some bs"
    by (auto simp: is_tree_def split: option.splits)
  from subtree_closed [OF this] show ?thesis by (auto simp: closed_def)
qed

section \<open>The replacement pass, child by child\<close>

text \<open>
  Claim C1. In the replacement pass over a tree, a child \<open>a\<close> of \<open>m\<close> for which
  \<open>_is_quantifiable\<close> answers false is skipped: the step of the loop for that child is
  the identity, whatever the recursive call would do; when the pass returns, \<open>m\<close> still
  holds \<open>a\<close> under its name, and every layer below \<open>a\<close> is as it was, so no descendant
  of \<open>a\<close> has been replaced. The configuration is assumed to answer for \<open>a\<close> from the
  types and child names of the layers, which no step changes.
\<close>

theorem ineligible_child_skipped:
  assumes tree: "is_tree (Suc k) h m"
    and build: "builds_fresh (get_qat_layer config c)"
    and run: "convert_to_quant_layers (Suc k) config c m h = Some (Inr h')"
    and child: "(n, a) \<in> set (sub_layers (h ! m))"
    and inel: "\<forall>g. keeps h g \<longrightarrow> is_quantifiable config c g a = Inr False"
  shows "(\<forall>rec rest rs g. keeps h g \<longrightarrow>
            convert_children rec config c ((n, a) # rest) rs g =
            convert_children rec config c rest rs g) \<and>
         child_at h' m n = Some a \<and>
         (\<exists>bs. subtree k h a = Some bs \<and> (\<forall>x\<in>set bs. h' ! x = h ! x))"
proof -
  from run have "walk (Suc k) (convert_decide config c) (get_qat_layer config c) m h = Some (Inr h')"
    by (simp only: convert_walk)
  from walk_child [OF build tree this child]
  obtain bs ha hb act r where sa: "subtree k h a = Some bs" and k: "keeps h ha"
    and dec: "convert_decide config c ha a = Some (Inr act)"
    and st: "step_of (walk k (convert_decide config c) (get_qat_layer config c))
               (get_qat_layer config c) act a ha hb r"
    and ch: "child_at h' m n = Some (case r of None \<Rightarrow> a | Some r' \<Rightarrow> r')"
    and ins: "\<forall>x\<in>set bs. h' ! x = (if act = Descend then hb ! x else h ! x)"
    by blast
  from inel k have "is_quantifiable config c ha a = Inr False" by blast
  with dec have act: "act = Skip" by (simp add: convert_decide_def)
  with st have "r = None" by (simp add: step_of_def)
  with ch ins act sa have "child_at h' m n = Some a"
    "\<exists>bs. subtree k h a = Some bs \<and> (\<forall>x\<in>set bs. h' ! x = h ! x)" by auto
  moreover from inel have "\<forall>rec rest rs g. keeps h g \<longrightarrow>
            convert_children rec config c ((n, a) # rest) rs g =
            convert_children rec config c rest rs g" by simp
  ultimately show ?thesis by blast
qed

lemma demo_tree: "is_tree (Suc 2) demo_heap 0"
  by code_simp

lemma demo_convert:
  "convert_to_quant_layers (Suc 2) demo_config demo_bound 0 demo_heap = Some (Inr demo_converted)"
  by code_simp

lemma demo_normB_ineligible:
  "keeps demo_heap g \<Longrightarrow> is_quantifiable demo_config demo_bound g 2 = Inr False"
  by (auto simp: keeps_def demo_heap_def demo_config_def demo_bound_def)

theorem ineligible_child_skipped_witness:
  "convert_to_quant_layers (Suc 2) demo_config demo_bound 0 demo_heap = Some (Inr demo_converted) \<and>
   child_at demo_converted 0 ''normB'' = Some 2 \<and>
   demo_converted ! 2 = demo_heap ! 2 \<and> demo_converted ! 3 = demo_heap ! 3"
proof -
  have child: "(''normB'', 2) \<in> set (sub_layers (demo_heap ! 0))"
    by (simp add: demo_heap_def)
  have inel: "\<forall>g. keeps demo_heap g \<longrightarrow> is_quantifiable demo_config demo_bound g 2 = Inr False"
    using demo_normB_ineligible by blast
  have sub: "subtree 2 demo_heap 2 = Some [2, 3]" by code_simp
  from ineligible_child_skipped [OF demo_tree demo_qat_builds_fresh demo_convert child inel]
  have "child_at demo_converted 0 ''normB'' = Some 2"
    and "\<exists>bs. subtree 2 demo_heap 2 = Some bs \<and> (\<forall>x\<in>set bs. demo_converted ! x = demo_heap ! x)"
    by blast+
  with sub demo_convert show ?thesis by simp
qed

text \<open>
  Claim C3. In the replacement pass over a tree, for a child \<open>a\<close> of \<open>m\<close> for which
  \<open>_is_quantifiable\<close> answers true: when the type of \<open>a\<close> is not in the mapping set,
  \<open>m\<close> still holds \<open>a\<close> and the layers below \<open>a\<close> are as the recursive call on \<open>a\<close>
  left them; when it is, \<open>m\<close> holds the layer that \<open>_get_qat_layer\<close> returned for \<open>a\<close>,
  every layer below \<open>a\<close> is as it was, and so is every layer that the constructor
  made: neither \<open>a\<close> nor its replacement has been descended into.
\<close>

theorem eligible_child_replaced_or_descended:
  assumes tree: "is_tree (Suc k) h m"
    and build: "builds_fresh (get_qat_layer config c)"
    and run: "convert_to_quant_layers (Suc k) config c m h = Some (Inr h')"
    and child: "(n, a) \<in> set (sub_layers (h ! m))"
    and el: "\<forall>g. keeps h g \<longrightarrow> is_quantifiable config c g a = Inr True"
  shows "(\<forall>rec rest rs g. keeps h g \<longrightarrow>
            convert_children rec config c ((n, a) # rest) rs g =
            (if kind (h ! a) \<notin> set (qat_layer_mappings config c)
             then (case rec a g of
                     None \<Rightarrow> None
                   | Some (Inl e) \<Rightarrow> Some (Inl e)
                   | Some (Inr g') \<Rightarrow> convert_children rec config c rest rs g')
             else (case get_qat_layer config c g a of
                     Inl e \<Rightarrow> Some (Inl e)
                   | Inr (r, g') \<Rightarrow> convert_children rec config c rest (AList.update n r rs) g'))) \<and>
         (\<exists>bs ha hb.
           subtree k h a = Some bs \<and> keeps h ha \<and> (\<forall>x\<in>set bs. ha ! x = h ! x) \<and>
           (if kind (h ! a) \<notin> set (qat_layer_mappings config c)
            then child_at h' m n = Some a \<and>
                 convert_to_quant_layers k config c a ha = Some (Inr hb) \<and>
                 (\<forall>x\<in>set bs. h' ! x = hb ! x)
            else (\<exists>r. get_qat_layer config c ha a = Inr (r, hb) \<and>
                      child_at h' m n = Some r \<and>
                      (\<forall>x\<in>set bs. h' ! x = h ! x) \<and>
                      (\<forall>x. length ha \<le> x \<and> x < length hb \<longrightarrow> h' ! x = hb ! x))))"
proof -
  let ?decide = "convert_decide config c" and ?build = "get_qat_layer config c"
  from run have "walk (Suc k) ?decide ?build m h = Some (Inr h')"
    by (simp only: convert_walk)
  from walk_child [OF build tree this child]
  obtain bs ha hb act r where sa: "subtree k h a = Some bs" and k: "keeps h ha"
    and b: "\<forall>x\<in>set bs. ha ! x = h ! x"
    and dec: "?decide ha a = Some (Inr act)"
    and st: "step_of (walk k ?decide ?build) ?build act a ha hb r"
    and ch: "child_at h' m n = Some (case r of None \<Rightarrow> a | Some r' \<Rightarrow> r')"
    and ins: "\<forall>x\<in>set bs. h' ! x = (if act = Descend then hb ! x else h ! x)"
    and new: "\<forall>x. length h \<le> x \<and> x < length hb \<longrightarrow> h' ! x = hb ! x"
    by blast
  from tree_child_valid [OF tree child] have a: "a < length h" .
  with k have ka: "kind (ha ! a) = kind (h ! a)" and la: "a < length ha" and lh: "length h \<le> length ha"
    by (auto simp: keeps_def)
  from el k have q: "is_quantifiable config c ha a = Inr True" by blast
  have second: "\<exists>bs ha hb.
           subtree k h a = Some bs \<and> keeps h ha \<and> (\<forall>x\<in>set bs. ha ! x = h ! x) \<and>
           (if kind (h ! a) \<notin> set (qat_layer_mappings config c)
            then child_at h' m n = Some a \<and>
                 convert_to_quant_layers k config c a ha = Some (Inr hb) \<and>
                 (\<forall>x\<in>set bs. h' ! x = hb ! x)
            else (\<exists>r. get_qat_layer config c ha a = Inr (r, hb) \<and>
                      child_at h' m n = Some r \<and>
                      (\<forall>x\<in>set bs. h' ! x = h ! x) \<and>
                      (\<forall>x. length ha \<le> x \<and> x < length hb \<longrightarrow> h' ! x = hb ! x)))"
  proof (cases "kind (h ! a) \<in> set (qat_layer_mappings config c)")
    case False
    with dec q ka la have act: "act = Descend"
      by (simp add: convert_decide_def layer_type_def)
    with st have "r = None" "convert_to_quant_layers k config c a ha = Some (Inr hb)"
      by (simp_all add: step_of_def convert_walk)
    with ch ins act False sa k b show ?thesis by auto
  next
    case True
    with dec q ka la have act: "act = Replace"
      by (simp add: convert_decide_def layer_type_def)
    with st obtain r' where r: "r = Some r'" "get_qat_layer config c ha a = Inr (r', hb)"
      by (auto simp: step_of_def split: option.splits)
    from new lh have "\<forall>x. length ha \<le> x \<and> x < length hb \<longrightarrow> h' ! x = hb ! x" by auto
    with r ch ins act True sa k b show ?thesis by auto
  qed
  have first: "\<forall>rec rest rs g. keeps h g \<longrightarrow>
            convert_children rec config c ((n, a) # rest) rs g =
            (if kind (h ! a) \<notin> set (qat_layer_mappings config c)
             then (case rec a g of
                     None \<Rightarrow> None
                   | Some (Inl e) \<Rightarrow> Some (Inl e)
                   | Some (Inr g') \<Rightarrow> convert_children rec config c rest rs g')
             else (case get_qat_layer config c g a of
                     Inl e \<Rightarrow> Some (Inl e)
                   | Inr (r, g') \<Rightarrow> convert_children rec config c rest (AList.update n r rs) g'))"
  proof (intro allI impI)
    fix rec rest rs g assume g: "keeps h g"
    with a have "layer_type g a = Some (kind (h ! a))" by (simp add: keeps_def layer_type_def)
    moreover from el g have "is_quantifiable config c g a = Inr True" by blast
    ultimately show "convert_children rec config c ((n, a) # rest) rs g =
            (if kind (h ! a) \<notin> set (qat_layer_mappings config c)
             then (case rec a g of
                     None \<Rightarrow> None
                   | Some (Inl e) \<Rightarrow> Some (Inl e)
                   | Some (Inr g') \<Rightarrow> convert_children rec config c rest rs g')
             else (case get_qat_layer config c g a of
                     Inl e \<Rightarrow> Some (Inl e)
                   | Inr (r, g') \<Rightarrow> convert_children rec config c rest (AList.update n r rs) g'))"
      by (simp cong: sum.case_cong)
  qed
  from first second show ?thesis by (rule conjI)
qed

lemma demo_convA_eligible:
  "keeps demo_heap g \<Longrightarrow> is_quantifiable demo_config demo_bound g 1 = Inr True"
  by (auto simp: keeps_def demo_heap_def demo_config_def demo_bound_def)

theorem eligible_child_replaced_or_descended_witness:
  "convert_to_quant_layers (Suc 2) demo_config demo_bound 0 demo_heap = Some (Inr demo_converted) \<and>
   kind (demo_heap ! 1) = ''Conv2D'' \<and>
   child_at demo_converted 0 ''convA'' = Some 6 \<and>
   demo_converted ! 1 = demo_heap ! 1"
proof -
  have child: "(''convA'', 1) \<in> set (sub_layers (demo_heap ! 0))"
    by (simp add: demo_heap_def)
  have el: "\<forall>g. keeps demo_heap g \<longrightarrow> is_quantifiable demo_config demo_bound g 1 = Inr True"
    using demo_convA_eligible by blast
  have sub: "subtree 2 demo_heap 1 = Some [1]" by code_simp
  have mapped: "kind (demo_heap ! 1) \<in> set (qat_layer_mappings demo_config demo_bound)"
    by (simp add: demo_heap_def demo_config_def)
  from eligible_child_replaced_or_descended [OF demo_tree demo_qat_builds_fresh demo_convert child el]
    mapped sub
  have "\<exists>ha hb r. get_qat_layer demo_config demo_bound ha 1 = Inr (r, hb) \<and>
          child_at demo_converted 0 ''convA'' = Some r \<and>
          (\<forall>x\<in>set [1]. demo_converted ! x = demo_heap ! x)"
    by auto
  moreover have "child_at demo_converted 0 ''convA'' = Some 6"
    by (simp add: child_at_def demo_converted_def)
  moreover have "kind (demo_heap ! 1) = ''Conv2D''" by (simp add: demo_heap_def)
  ultimately show ?thesis using demo_convert by auto
qed

section \<open>The observer pass, child by child\<close>

text \<open>
  Claim C5. In the observer pass over a tree, for a child \<open>a\<close> of \<open>m\<close>: when
  \<open>_need_observe\<close> answers true, \<open>m\<close> holds the layer that \<open>_get_observe_wrapper\<close>
  returned for \<open>a\<close>, and every layer below \<open>a\<close> is as it was; when it answers false,
  \<open>m\<close> still holds \<open>a\<close>, and the layers below \<open>a\<close> are as the recursive call on \<open>a\<close>
  left them. The loop step for the child is, for every recursive call, the one or the
  other.
\<close>

theorem observed_child_wrapped_or_descended:
  assumes tree: "is_tree (Suc k) h m"
    and build: "builds_fresh (get_observe_wrapper config c)"
    and run: "insert_activation_observers (Suc k) config c m h = Some (Inr h')"
    and child: "(n, a) \<in> set (sub_layers (h ! m))"
    and obs: "\<forall>g. keeps h g \<longrightarrow> need_observe config c g a = Inr b"
  shows "(\<forall>rec rest rs g. keeps h g \<longrightarrow>
            observe_children rec config c ((n, a) # rest) rs g =
            (if b
             then (case get_observe_wrapper config c g a of
                     Inl e \<Rightarrow> Some (Inl e)
                   | Inr (r, g') \<Rightarrow> observe_children rec config c rest (AList.update n r rs) g')
             else (case rec a g of
                     None \<Rightarrow> None
                   | Some (Inl e) \<Rightarrow> Some (Inl e)
                   | Some (Inr g') \<Rightarrow> observe_children rec config c rest rs g'))) \<and>
         (\<exists>bs ha hb.
           subtree k h a = Some bs \<and> keeps h ha \<and> (\<forall>x\<in>set bs. ha ! x = h ! x) \<and>
           (if b
            then (\<exists>w. get_observe_wrapper config c ha a = Inr (w, hb) \<and>
                      child_at h' m n = Some w \<and>
                      (\<forall>x\<in>set bs. h' ! x = h ! x))
            else child_at h' m n = Some a \<and>
                 insert_activation_observers k config c a ha = Some (Inr hb) \<and>
                 (\<forall>x\<in>set bs. h' ! x = hb ! x)))"
proof -
  let ?decide = "observe_decide config c" and ?build = "get_observe_wrapper config c"
  from run have "walk (Suc k) ?decide ?build m h = Some (Inr h')"
    by (simp only: observe_walk)
  from walk_child [OF build tree this child]
  obtain bs ha hb act r where sa: "subtree k h a = Some bs" and k: "keeps h ha"
    and bb: "\<forall>x\<in>set bs. ha ! x = h ! x"
    and dec: "?decide ha a = Some (Inr act)"
    and st: "step_of (walk k ?decide ?build) ?build act a ha hb r"
    and ch: "child_at h' m n = Some (case r of None \<Rightarrow> a | Some r' \<Rightarrow> r')"
    and ins: "\<forall>x\<in>set bs. h' ! x = (if act = Descend then hb ! x else h ! x)"
    by blast
  from obs k have q: "need_observe config c ha a = Inr b" by blast
  have second: "\<exists>bs ha hb.
           subtree k h a = Some bs \<and> keeps h ha \<and> (\<forall>x\<in>set bs. ha ! x = h ! x) \<and>
           (if b
            then (\<exists>w. get_observe_wrapper config c ha a = Inr (w, hb) \<and>
                      child_at h' m n = Some w \<and>
                      (\<forall>x\<in>set bs. h' ! x = h ! x))
            else child_at h' m n = Some a \<and>
                 insert_activation_observers k config c a ha = Some (Inr hb) \<and>
                 (\<forall>x\<in>set bs. h' ! x = hb ! x))"
  proof (cases b)
    case False
    with dec q have act: "act = Descend" by (simp add: observe_decide_def)
    with st have "r = None" "insert_activation_observers k config c a ha = Some (Inr hb)"
      by (simp_all add: step_of_def observe_walk)
    with ch ins act False sa k bb show ?thesis by auto
  next
    case True
    with dec q have act: "act = Replace" by (simp add: observe_decide_def)
    with st obtain r' where r: "r = Some r'" "get_observe_wrapper config c ha a = Inr (r', hb)"
      by (auto simp: step_of_def split: option.splits)
    with ch ins act True sa k bb show ?thesis by auto
  qed
  have first: "\<forall>rec rest rs g. keeps h g \<longrightarrow>
            observe_children rec config c ((n, a) # rest) rs g =
            (if b
             then (case get_observe_wrapper config c g a of
                     Inl e \<Rightarrow> Some (Inl e)
                   | Inr (r, g') \<Rightarrow> observe_children rec config c rest (AList.update n r rs) g')
             else (case rec a g of
                     None \<Rightarrow> None
                   | Some (Inl e) \<Rightarrow> Some (Inl e)
                   | Some (Inr g') \<Rightarrow> observe_children rec config c rest rs g'))"
    using obs by (cases b) (simp_all cong: sum.case_cong)
  from first second show ?thesis by (rule conjI)
qed

lemma demo_converted_tree: "is_tree (Suc 2) demo_converted 0"
  by code_simp

lemma demo_observe:
  "insert_activation_observers (Suc 2) demo_config demo_bound 0 demo_converted =
   Some (Inr (layers demo_quantized))"
  by code_simp

lemma demo_quanted_observed:
  "keeps demo_converted g \<Longrightarrow> need_observe demo_config demo_bound g 6 = Inr True"
  by (auto simp: keeps_def demo_converted_def demo_config_def)

lemma demo_block_not_observed:
  "keeps demo_converted g \<Longrightarrow> need_observe demo_config demo_bound g 4 = Inr False"
  by (auto simp: keeps_def demo_converted_def demo_config_def)

theorem observed_child_wrapped_or_descended_witness:
  "insert_activation_observers (Suc 2) demo_config demo_bound 0 demo_converted =
     Some (Inr (layers demo_quantized)) \<and>
   child_at (layers demo_quantized) 0 ''convA'' = Some 8 \<and>
   layers demo_quantized ! 6 = demo_converted ! 6 \<and>
   child_at (layers demo_quantized) 0 ''blockC'' = Some 4"
proof -
  have c1: "(''convA'', 6) \<in> set (sub_layers (demo_converted ! 0))"
    and c2: "(''blockC'', 4) \<in> set (sub_layers (demo_converted ! 0))"
    by (simp_all add: demo_converted_def)
  have o1: "\<forall>g. keeps demo_converted g \<longrightarrow> need_observe demo_config demo_bound g 6 = Inr True"
    using demo_quanted_observed by blast
  have o2: "\<forall>g. keeps demo_converted g \<longrightarrow> need_observe demo_config demo_bound g 4 = Inr False"
    using demo_block_not_observed by blast
  have sub: "subtree 2 demo_converted 6 = Some [6]" by code_simp
  from observed_child_wrapped_or_descended
         [OF demo_converted_tree demo_wrapper_builds_fresh demo_observe c1 o1] sub
  have "\<exists>ha hb w. get_observe_wrapper demo_config demo_bound ha 6 = Inr (w, hb) \<and>
          child_at (layers demo_quantized) 0 ''convA'' = Some w \<and>
          (\<forall>x\<in>set [6]. layers demo_quantized ! x = demo_converted ! x)"
    by auto
  then have "layers demo_quantized ! 6 = demo_converted ! 6" by auto
  moreover
  from observed_child_wrapped_or_descended
         [OF demo_converted_tree demo_wrapper_builds_fresh demo_observe c2 o2]
  have "child_at (layers demo_quantized) 0 ''blockC'' = Some 4" by auto
  moreover have "child_at (layers demo_quantized) 0 ''convA'' = Some 8"
    by (simp add: child_at_def demo_quantized_def)
  ultimately show ?thesis using demo_observe by simp
qed

lemma walk_loop_staged:
  assumes build: "builds_fresh build"
    and tree: "is_tree (Suc k) h m"
    and w: "walk_children (walk k decide build) decide build (sub_layers (h ! m)) [] h =
              Some (Inr (rs, h1))"
  shows "h1 ! m = h ! m \<and>
         (\<forall>n r. map_of rs n = Some r \<longrightarrow>
            (\<exists>a ha hb. (n, a) \<in> set (sub_layers (h ! m)) \<and> keeps h ha \<and>
               decide ha a = Some (Inr Replace) \<and> build ha a = Inr (r, hb)))"
proof -
  let ?cs = "sub_layers (h ! m)"
  from tree obtain as where s: "subtree (Suc k) h m = Some as" and d: "distinct as"
    and nm: "list_all (\<lambda>b. distinct (map fst (sub_layers (h ! b)))) as"
    by (auto simp: is_tree_def split: option.splits)
  from s obtain dss where m: "m < length h"
    and sub: "list_all2 (\<lambda>nc bs. subtree k h (snd nc) = Some bs) ?cs dss"
    and as: "as = m # concat dss"
    unfolding subtree_Suc by blast
  from d as have mn: "m \<notin> set (concat dss)" by auto
  from nm as have names: "distinct (map fst ?cs)" by simp
  have rect: "\<And>R a h h'. closed R h \<Longrightarrow> a \<in> R \<Longrightarrow> walk k decide build a h = Some (Inr h') \<Longrightarrow>
                touches_only R h h'"
    by (rule walk_touches_only [OF build])
  have alloc: "allocates_only build" using build by (rule builds_fresh_allocates)
  have reck: "\<And>a h h'. walk k decide build a h = Some (Inr h') \<Longrightarrow> keeps h h'"
    by (rule walk_keeps [OF alloc])
  from subtrees_closed [OF sub] have cl: "closed (set (concat dss)) h"
    and cs: "snd ` set ?cs \<subseteq> set (concat dss)" by auto
  from walk_children_touches_only [OF build rect cl cs w]
  have "touches_only (set (concat dss)) h h1" by simp
  with m mn have hm: "h1 ! m = h ! m" by (auto simp: touches_only_def)
  have staged: "\<exists>a ha hb. (n, a) \<in> set ?cs \<and> keeps h ha \<and>
               decide ha a = Some (Inr Replace) \<and> build ha a = Inr (r, hb)"
    if mo: "map_of rs n = Some r" for n r
  proof -
    have "n \<in> fst ` set ?cs"
    proof (rule ccontr)
      assume "n \<notin> fst ` set ?cs"
      from walk_children_other_name [OF w this] mo show False by simp
    qed
    then obtain i where i: "i < length ?cs" "fst (?cs ! i) = n"
      by (auto simp: in_set_conv_nth)
    have "\<exists>ha hb act r. keeps h ha \<and>
            decide ha (snd (?cs ! i)) = Some (Inr act) \<and>
            step_of (walk k decide build) build act (snd (?cs ! i)) ha hb r \<and>
            map_of rs (fst (?cs ! i)) =
              (case r of None \<Rightarrow> map_of [] (fst (?cs ! i)) | Some r' \<Rightarrow> Some r') \<and>
            keeps hb h1"
      using alloc reck names w i(1)
      by (rule walk_children_decision [where rec = "walk k decide build"])
    then obtain ha hb act r0 where k: "keeps h ha"
      and dec: "decide ha (snd (?cs ! i)) = Some (Inr act)"
      and st: "step_of (walk k decide build) build act (snd (?cs ! i)) ha hb r0"
      and mo': "map_of rs n = (case r0 of None \<Rightarrow> map_of [] n | Some r' \<Rightarrow> Some r')"
      unfolding i(2) by blast
    from mo mo' have r0: "r0 = Some r" by (cases r0) auto
    with st have "act = Replace" "build ha (snd (?cs ! i)) = Inr (r, hb)"
      by (cases act; simp add: step_of_def)+
    moreover from i have "(n, snd (?cs ! i)) \<in> set ?cs"
      by (metis nth_mem prod.collapse)
    ultimately show ?thesis using k dec by blast
  qed
  from hm staged show ?thesis by blast
qed

section \<open>Staging and installing\<close>

text \<open>
  Claim C4. In both passes over a tree, when the pass on \<open>m\<close> returns, the loop over
  the children of \<open>m\<close> has returned with a staged dictionary and a store in which the
  layer \<open>m\<close> itself is still as it was before the pass; the result of the pass is that
  store with the staged dictionary installed into \<open>m\<close>. Every staged entry binds the
  name of a child that \<open>m\<close> had before the pass to what the constructor returned for
  that very child: no replacement was built from, or decided on, another replacement.
\<close>

theorem replacements_installed_after_iteration:
  assumes tree: "is_tree (Suc k) h m"
    and qat: "builds_fresh (get_qat_layer config c)"
    and obs: "builds_fresh (get_observe_wrapper config c)"
  shows "(\<forall>h'. convert_to_quant_layers (Suc k) config c m h = Some (Inr h') \<longrightarrow>
           (\<exists>rs h1.
              convert_children (convert_to_quant_layers k config c) config c
                (sub_layers (h ! m)) [] h = Some (Inr (rs, h1)) \<and>
              h1 ! m = h ! m \<and> install m rs h1 = Some (Inr h') \<and>
              (\<forall>n r. map_of rs n = Some r \<longrightarrow>
                 (\<exists>a ha hb. (n, a) \<in> set (sub_layers (h ! m)) \<and> keeps h ha \<and>
                    get_qat_layer config c ha a = Inr (r, hb))))) \<and>
         (\<forall>h'. insert_activation_observers (Suc k) config c m h = Some (Inr h') \<longrightarrow>
           (\<exists>rs h1.
              observe_children (insert_activation_observers k config c) config c
                (sub_layers (h ! m)) [] h = Some (Inr (rs, h1)) \<and>
              h1 ! m = h ! m \<and> install m rs h1 = Some (Inr h') \<and>
              (\<forall>n r. map_of rs n = Some r \<longrightarrow>
                 (\<exists>a ha hb. (n, a) \<in> set (sub_layers (h ! m)) \<and> keeps h ha \<and>
                    get_observe_wrapper config c ha a = Inr (r, hb)))))"
proof (intro conjI allI impI)
  fix h' assume run: "convert_to_quant_layers (Suc k) config c m h = Some (Inr h')"
  then obtain rs h1 where
    w: "convert_children (convert_to_quant_layers k config c) config c
          (sub_layers (h ! m)) [] h = Some (Inr (rs, h1))"
    and inst: "install m rs h1 = Some (Inr h')"
    by (auto simp: named_children_def split: option.splits sum.splits if_splits)
  have eq: "convert_to_quant_layers k config c =
            walk k (convert_decide config c) (get_qat_layer config c)"
    by (intro ext) (rule convert_walk)
  from w have "walk_children (walk k (convert_decide config c) (get_qat_layer config c))
                 (convert_decide config c) (get_qat_layer config c) (sub_layers (h ! m)) [] h =
               Some (Inr (rs, h1))"
    by (simp add: convert_children_walk eq)
  from walk_loop_staged [OF qat tree this] w inst
  show "\<exists>rs h1.
          convert_children (convert_to_quant_layers k config c) config c
            (sub_layers (h ! m)) [] h = Some (Inr (rs, h1)) \<and>
          h1 ! m = h ! m \<and> install m rs h1 = Some (Inr h') \<and>
          (\<forall>n r. map_of rs n = Some r \<longrightarrow>
             (\<exists>a ha hb. (n, a) \<in> set (sub_layers (h ! m)) \<and> keeps h ha \<and>
                get_qat_layer config c ha a = Inr (r, hb)))"
    by blast
next
  fix h' assume run: "insert_activation_observers (Suc k) config c m h = Some (Inr h')"
  then obtain rs h1 where
    w: "observe_children (insert_activation_observers k config c) config c
          (sub_layers (h ! m)) [] h = Some (Inr (rs, h1))"
    and inst: "install m rs h1 = Some (Inr h')"
    by (auto simp: named_children_def split: option.splits sum.splits if_splits)
  have eq: "insert_activation_observers k config c =
            walk k (observe_decide config c) (get_observe_wrapper config c)"
    by (intro ext) (rule observe_walk)
  from w have "walk_children (walk k (observe_decide config c) (get_observe_wrapper config c))
                 (observe_decide config c) (get_observe_wrapper config c) (sub_layers (h ! m)) [] h =
               Some (Inr (rs, h1))"
    by (simp add: observe_children_walk eq)
  from walk_loop_staged [OF obs tree this] w inst
  show "\<exists>rs h1.
          observe_children (insert_activation_observers k config c) config c
            (sub_layers (h ! m)) [] h = Some (Inr (rs, h1)) \<and>
          h1 ! m = h ! m \<and> install m rs h1 = Some (Inr h') \<and>
          (\<forall>n r. map_of rs n = Some r \<longrightarrow>
             (\<exists>a ha hb. (n, a) \<in> set (sub_layers (h ! m)) \<and> keeps h ha \<and>
                get_observe_wrapper config c ha a = Inr (r, hb)))"
    by blast
qed

lemma demo_convert_children:
  "convert_children (convert_to_quant_layers 2 demo_config demo_bound) demo_config demo_bound
     (sub_layers (demo_heap ! 0)) [] demo_heap = Some (Inr ([(''convA'', 6)], demo_staged))"
  by code_simp

theorem replacements_installed_after_iteration_witness:
  "convert_children (convert_to_quant_layers 2 demo_config demo_bound) demo_config demo_bound
     (sub_layers (demo_heap ! 0)) [] demo_heap = Some (Inr ([(''convA'', 6)], demo_staged)) \<and>
   demo_staged ! 0 = demo_heap ! 0 \<and>
   install 0 [(''convA'', 6)] demo_staged = Some (Inr demo_converted)"
proof -
  from replacements_installed_after_iteration
         [OF demo_tree demo_qat_builds_fresh demo_wrapper_builds_fresh] demo_convert
  obtain rs h1 where
    "convert_children (convert_to_quant_layers 2 demo_config demo_bound) demo_config demo_bound
       (sub_layers (demo_heap ! 0)) [] demo_heap = Some (Inr (rs, h1))"
    and "h1 ! 0 = demo_heap ! 0" and "install 0 rs h1 = Some (Inr demo_converted)"
    by blast
  with demo_convert_children show ?thesis by simp
qed

lemma demo_qat_observed:
  "get_qat_layer demo_config demo_bound ha a = Inr (r, hb) \<Longrightarrow> keeps hb g \<Longrightarrow>
   need_observe demo_config demo_bound g r = Inr True"
  by (auto simp: demo_config_def keeps_def nth_append)

lemma demo_quantize_inplace_Suc:
  "quantize (Suc 2) demo_config demo_deepcopy \<lparr>qat_config = 0\<rparr> 0 True demo_world =
   Some (Inr (0, demo_quantized))"
  by code_simp

lemma demo_specify:
  "specify demo_config (configs demo_world ! qat_config \<lparr>qat_config = 0\<rparr>) (layers demo_world) 0 =
   Inr (demo_bound, demo_heap)"
  by (simp add: demo_config_def demo_world_def demo_content0_def demo_bound_def)

lemma install_nothing: "m < length h \<Longrightarrow> install m [] h = Some (Inr h)"
  by (simp add: install_def)

lemma walk_children_all_skip:
  "\<forall>nc\<in>set cs. decide h (snd nc) = Some (Inr Skip) \<Longrightarrow>
   walk_children rec decide build cs rs h = Some (Inr (rs, h))"
  by (induction cs) simp_all

lemma walk_children_all_descend:
  "\<forall>nc\<in>set cs. decide h (snd nc) = Some (Inr Descend) \<and> rec (snd nc) h = Some (Inr h) \<Longrightarrow>
   walk_children rec decide build cs rs h = Some (Inr (rs, h))"
  by (induction cs) simp_all

lemma walk_all_skip:
  assumes "m < length h" "\<forall>nc\<in>set (sub_layers (h ! m)). decide h (snd nc) = Some (Inr Skip)"
  shows "walk (Suc k) decide build m h = Some (Inr h)"
  using assms by (simp add: named_children_def walk_children_all_skip install_nothing)

lemma walk_all_descend:
  "subtree k h m = Some as \<Longrightarrow> \<forall>a\<in>set as. decide h a = Some (Inr Descend) \<Longrightarrow>
   walk k decide build m h = Some (Inr h)"
proof (induction k arbitrary: m as)
  case 0
  then show ?case by simp
next
  case (Suc k)
  from Suc.prems(1) obtain dss where m: "m < length h"
    and sub: "list_all2 (\<lambda>nc bs. subtree k h (snd nc) = Some bs) (sub_layers (h ! m)) dss"
    and as: "as = m # concat dss"
    unfolding subtree_Suc by blast
  have "\<forall>nc\<in>set (sub_layers (h ! m)).
          decide h (snd nc) = Some (Inr Descend) \<and> walk k decide build (snd nc) h = Some (Inr h)"
  proof
    fix nc assume "nc \<in> set (sub_layers (h ! m))"
    then obtain i where i: "i < length (sub_layers (h ! m))" "sub_layers (h ! m) ! i = nc"
      by (auto simp: in_set_conv_nth)
    with sub have s: "subtree k h (snd nc) = Some (dss ! i)" and il: "i < length dss"
      by (auto dest: list_all2_nthD list_all2_lengthD)
    from nth_concat_subset [OF il] as have ss: "set (dss ! i) \<subseteq> set as" by auto
    with Suc.prems(2) have all: "\<forall>a\<in>set (dss ! i). decide h a = Some (Inr Descend)" by blast
    from subtree_closed [OF s] have "snd nc \<in> set (dss ! i)" by simp
    with all Suc.IH [OF s all]
    show "decide h (snd nc) = Some (Inr Descend) \<and> walk k decide build (snd nc) h = Some (Inr h)"
      by simp
  qed
  then have "walk_children (walk k decide build) decide build (sub_layers (h ! m)) [] h =
               Some (Inr ([], h))"
    by (rule walk_children_all_descend)
  with m show ?case by (simp add: named_children_def install_nothing)
qed

lemma subtree_children:
  assumes "subtree k h m = Some as" "nc \<in> set (sub_layers (h ! m))"
  shows "snd nc \<in> set as"
proof -
  from subtree_closed [OF assms(1)] have "m \<in> set as" "closed (set as) h" by auto
  with assms(2) show ?thesis unfolding closed_def by blast
qed

section \<open>A model with nothing to do\<close>

text \<open>
  Claim C6, as the code has it. The observer pass asks \<open>_need_observe\<close> only, never
  \<open>_is_quantifiable\<close>; so the claim needs both answers to be false everywhere. If the
  working model is no deeper than the bound on the recursion, and the bound configuration
  answers false to \<open>_is_quantifiable\<close> and to \<open>_need_observe\<close> for every layer below
  the working model, then \<open>quantize\<close> returns the working model (the caller's object when
  \<open>inplace\<close> is true, the deep copy otherwise) in the very store that \<open>_specify\<close> left:
  no layer is changed and no layer is made.
\<close>

theorem quantize_nothing_to_do:
  assumes self: "qat_config self < length (configs w)"
    and work: "(if inplace then Inr (model, layers w) else deepcopy (layers w) model) = Inr (m, h0)"
    and spec: "specify config (configs w ! qat_config self) h0 m = Inr (cfg, h1)"
    and depth: "subtree k h1 m = Some as"
    and inel: "\<forall>a\<in>set as. is_quantifiable config cfg h1 a = Inr False"
    and noobs: "\<forall>a\<in>set as. need_observe config cfg h1 a = Inr False"
  shows "quantize k config deepcopy self model inplace w =
         Some (Inr (m, \<lparr>layers = h1, configs = (configs w)[qat_config self := cfg]\<rparr>))"
proof -
  from depth obtain k' where k: "k = Suc k'" by (cases k) auto
  from depth k have m: "m < length h1" by (simp split: if_splits)
  have "\<forall>nc\<in>set (sub_layers (h1 ! m)). convert_decide config cfg h1 (snd nc) = Some (Inr Skip)"
  proof
    fix nc assume "nc \<in> set (sub_layers (h1 ! m))"
    from subtree_children [OF depth this] inel
    show "convert_decide config cfg h1 (snd nc) = Some (Inr Skip)"
      by (simp add: convert_decide_def)
  qed
  with m have "walk (Suc k') (convert_decide config cfg) (get_qat_layer config cfg) m h1 =
                Some (Inr h1)"
    by (rule walk_all_skip)
  then have p1: "convert_to_quant_layers k config cfg m h1 = Some (Inr h1)"
    by (simp only: convert_walk k)
  from noobs have "\<forall>a\<in>set as. observe_decide config cfg h1 a = Some (Inr Descend)"
    by (simp add: observe_decide_def)
  with depth have "walk k (observe_decide config cfg) (get_observe_wrapper config cfg) m h1 =
                    Some (Inr h1)"
    by (rule walk_all_descend)
  then have p2: "insert_activation_observers k config cfg m h1 = Some (Inr h1)"
    by (simp only: observe_walk)
  show ?thesis
    unfolding quantize_def using self work spec p1 p2 by simp
qed

lemma demo_idle_quantize:
  "quantize (Suc 2) demo_config demo_deepcopy \<lparr>qat_config = 0\<rparr> 0 True demo_idle_world =
   Some (Inr (0, \<lparr>layers = demo_heap, configs = [\<lparr>bound = Some 0, quant_kinds = []\<rparr>]\<rparr>))"
  by code_simp

theorem quantize_nothing_to_do_witness:
  "quantize (Suc 2) demo_config demo_deepcopy \<lparr>qat_config = 0\<rparr> 0 True demo_idle_world =
   Some (Inr (0, \<lparr>layers = layers demo_idle_world,
                   configs = [\<lparr>bound = Some 0, quant_kinds = []\<rparr>]\<rparr>))"
proof -
  let ?cfg = "\<lparr>bound = Some 0, quant_kinds = []\<rparr>"
  have self: "qat_config \<lparr>qat_config = 0\<rparr> < length (configs demo_idle_world)"
    by (simp add: demo_idle_world_def)
  have work: "(if True then Inr (0, layers demo_idle_world)
               else demo_deepcopy (layers demo_idle_world) 0) = Inr (0, demo_heap)"
    by (simp add: demo_idle_world_def)
  have spec: "specify demo_config (configs demo_idle_world ! qat_config \<lparr>qat_config = 0\<rparr>) demo_heap 0 =
              Inr (?cfg, demo_heap)"
    by (simp add: demo_config_def demo_idle_world_def)
  have depth: "subtree (Suc 2) demo_heap 0 = Some [0, 1, 2, 3, 4, 5]" by code_simp
  have inel: "\<forall>a\<in>set [0, 1, 2, 3, 4, 5]. is_quantifiable demo_config ?cfg demo_heap a = Inr False"
    by (simp add: demo_config_def)
  have noobs: "\<forall>a\<in>set [0, 1, 2, 3, 4, 5]. need_observe demo_config ?cfg demo_heap a = Inr False"
    by (simp add: demo_config_def demo_heap_def)
  from quantize_nothing_to_do [where inplace = True and deepcopy = demo_deepcopy and model = 0,
         OF self work spec depth inel noobs]
  show ?thesis by (simp add: demo_idle_world_def)
qed

text \<open>
  Claim C6, as stated, fails: the configuration below finds no layer eligible, yet the
  observer pass wraps the child \<open>act\<close> of the root, in place.
\<close>

theorem quantize_ineligible_model_counterexample:
  "is_quantifiable demo_config \<lparr>bound = Some 0, quant_kinds = []\<rparr> (layers demo_requant_world) 0 =
     Inr False \<and>
   is_quantifiable demo_config \<lparr>bound = Some 0, quant_kinds = []\<rparr> (layers demo_requant_world) 1 =
     Inr False \<and>
   quantize (Suc 1) demo_config demo_deepcopy \<lparr>qat_config = 0\<rparr> 0 True demo_requant_world =
     Some (Inr (0, demo_requant_result)) \<and>
   child_at (layers demo_requant_world) 0 ''act'' = Some 1 \<and>
   child_at (layers demo_requant_result) 0 ''act'' = Some 2 \<and>
   layers demo_requant_result \<noteq> layers demo_requant_world"
  by code_simp

section \<open>Errors and termination\<close>

lemma walk_children_error:
  assumes rec: "\<And>a h. rec a h = Some (Inl e) \<Longrightarrow> P"
    and dec: "\<And>h a. decide h a = Some (Inl e) \<Longrightarrow> P"
    and build: "\<And>h a. build h a = Inl e \<Longrightarrow> P"
  shows "walk_children rec decide build cs rs h = Some (Inl e) \<Longrightarrow> P"
proof (induction cs arbitrary: rs h)
  case Nil
  then show ?case by simp
next
  case (Cons nc cs)
  show ?case
  proof (cases "decide h (snd nc)")
    case None
    with Cons.prems show ?thesis by simp
  next
    case (Some d)
    show ?thesis
    proof (cases d)
      case (Inl e')
      with Some Cons.prems dec show ?thesis by simp
    next
      case (Inr act)
      show ?thesis
      proof (cases act)
        case Skip
        with Some Inr Cons.prems Cons.IH show ?thesis by simp
      next
        case Descend
        with Some Inr Cons.prems Cons.IH rec show ?thesis
          by (auto split: option.splits sum.splits)
      next
        case Replace
        with Some Inr Cons.prems Cons.IH build show ?thesis
          by (auto split: option.splits sum.splits)
      qed
    qed
  qed
qed

lemma install_no_error: "install m rs h \<noteq> Some (Inl e)"
  by (simp add: install_def)

lemma walk_error:
  assumes dec: "\<And>h a. decide h a = Some (Inl e) \<Longrightarrow> P"
    and build: "\<And>h a. build h a = Inl e \<Longrightarrow> P"
  shows "walk k decide build m h = Some (Inl e) \<Longrightarrow> P"
proof (induction k arbitrary: m h)
  case 0
  then show ?case by simp
next
  case (Suc k)
  from Suc.prems obtain cs where
    "walk_children (walk k decide build) decide build cs [] h = Some (Inl e)"
    by (auto simp: install_no_error split: option.splits sum.splits)
  then show ?case using Suc.IH dec build by (rule walk_children_error [rotated 3])
qed





lemma is_tree_subtree: "is_tree k h m \<Longrightarrow> \<exists>as. subtree k h m = Some as \<and> distinct as"
  by (auto simp: is_tree_def split: option.splits)








lemma owned_overwrite:
  "x \<noteq> qat_config self \<Longrightarrow> owned self (w\<lparr>configs := (configs w)[x := v]\<rparr>) = owned self w"
  by (simp add: owned_def)

lemma quantize_owned:
  assumes "owned self w = owned self w'"
  shows "map_option (map_sum id (\<lambda>r. (fst r, owned self (snd r))))
           (quantize k config deepcopy self model inplace w) =
         map_option (map_sum id (\<lambda>r. (fst r, owned self (snd r))))
           (quantize k config deepcopy self model inplace w')"
proof -
  from assms have l: "layers w = layers w'"
    and v: "qat_config self < length (configs w) \<longleftrightarrow> qat_config self < length (configs w')"
    by (auto simp: owned_def split: if_splits)
  show ?thesis
  proof (cases "qat_config self < length (configs w)")
    case False
    with v show ?thesis by (simp add: quantize_def)
  next
    case True
    with v have v': "qat_config self < length (configs w')" by simp
    from assms True v' have c: "configs w ! qat_config self = configs w' ! qat_config self"
      by (simp add: owned_def)
    show ?thesis
      unfolding quantize_def using True v' l c
      by (simp add: owned_def split: sum.splits option.splits prod.splits)
  qed
qed

lemma rewriter_lifetime_owned:
  "owned self w = owned self w' \<Longrightarrow>
   \<forall>x v. Overwrite x v \<in> set steps \<longrightarrow> x \<noteq> qat_config self \<Longrightarrow>
   map_option (map_sum id (\<lambda>r. (fst r, owned self (snd r))))
     (rewriter_lifetime k config deepcopy self steps w) =
   map_option (map_sum id (\<lambda>r. (fst r, owned self (snd r))))
     (rewriter_lifetime k config deepcopy self (filter is_Quantize steps) w')"
proof (induction steps arbitrary: w w')
  case Nil
  then show ?case by simp
next
  case (Cons s steps)
  from Cons.prems(2) have rest: "\<forall>x v. Overwrite x v \<in> set steps \<longrightarrow> x \<noteq> qat_config self"
    by simp
  show ?case
  proof (cases s)
    case (Overwrite x v)
    with Cons.prems(2) have "x \<noteq> qat_config self" by simp
    with Cons.prems(1) have "owned self (w\<lparr>configs := (configs w)[x := v]\<rparr>) = owned self w'"
      by (simp add: owned_overwrite)
    from Cons.IH [OF this rest] Overwrite show ?thesis by simp
  next
    case (Quantize model inplace)
    let ?q = "quantize k config deepcopy self model inplace"
    from quantize_owned [OF Cons.prems(1)]
    have q: "map_option (map_sum id (\<lambda>r. (fst r, owned self (snd r)))) (?q w) =
             map_option (map_sum id (\<lambda>r. (fst r, owned self (snd r)))) (?q w')" .
    show ?thesis
    proof (cases "?q w")
      case None
      with q have "?q w' = None" by simp
      with None Quantize show ?thesis by simp
    next
      case (Some res)
      with q obtain res' where s': "?q w' = Some res'"
        and r: "map_sum id (\<lambda>r. (fst r, owned self (snd r))) res =
                map_sum id (\<lambda>r. (fst r, owned self (snd r))) res'"
        by (cases "?q w'") auto
      show ?thesis
      proof (cases res)
        case (Inl e)
        with r have "res' = Inl e" by (cases res') auto
        with Inl Some s' Quantize show ?thesis by simp
      next
        case (Inr mw)
        with r obtain mw' where i': "res' = Inr mw'" and m: "fst mw' = fst mw"
          and o: "owned self (snd mw) = owned self (snd mw')"
          by (cases res') auto
        from Cons.IH [OF o rest]
        have "map_option (map_sum id (\<lambda>r. (fst r, owned self (snd r))))
                (rewriter_lifetime k config deepcopy self steps (snd mw)) =
              map_option (map_sum id (\<lambda>r. (fst r, owned self (snd r))))
                (rewriter_lifetime k config deepcopy self (filter is_Quantize steps) (snd mw'))" .
        then show ?thesis
          using Inr Some s' i' m Quantize
          by (cases mw; cases mw')
             (auto split: option.splits sum.splits simp: map_option_case)
      qed
    qed
  qed
qed

lemma quantize_writes_own_config:
  assumes "quantize k config deepcopy self model inplace w = Some (Inr (m, w'))"
  shows "length (configs w') = length (configs w) \<and>
         (\<forall>x. x \<noteq> qat_config self \<longrightarrow> configs w' ! x = configs w ! x)"
  using assms by (auto simp: quantize_def split: if_splits sum.splits option.splits)

section \<open>The rewriter's own configuration\<close>

text \<open>
  Claim C8, as the code has it. \<open>QAT.__init__\<close> stores a reference to a new configuration
  object with the content of the caller's, and nothing rebinds that reference. A call of
  \<open>quantize\<close> writes no configuration object but the rewriter's own. Take any two worlds
  in which the layers and the rewriter's own configuration object are the same, whatever
  else differs in them; let the caller, in one of them, overwrite any configuration
  objects but the rewriter's own, before, between and after its calls of \<open>quantize\<close>:
  the calls return the same models or raise the same exception as without the
  overwriting, and leave the same layers and the same content in the rewriter's own
  configuration object. What a later call reads there is what the earlier calls'
  \<open>_specify\<close> left, not what the constructor copied.
\<close>

theorem rewriter_config_isolated:
  assumes init: "QAT_init config w0 = Some (self, w1)"
    and view: "owned self w = owned self w'"
    and others: "\<forall>x v. Overwrite x v \<in> set steps \<longrightarrow> x \<noteq> qat_config self"
  shows "qat_config self = length (configs w0) \<and>
         owned self w1 = (layers w0, Some (configs w0 ! config)) \<and>
         take (length (configs w0)) (configs w1) = configs w0 \<and>
         (\<forall>model inplace m w''.
            quantize k ops deepcopy self model inplace w = Some (Inr (m, w'')) \<longrightarrow>
            length (configs w'') = length (configs w) \<and>
            (\<forall>x. x \<noteq> qat_config self \<longrightarrow> configs w'' ! x = configs w ! x)) \<and>
         map_option (map_sum id (\<lambda>r. (fst r, owned self (snd r))))
           (rewriter_lifetime k ops deepcopy self steps w) =
         map_option (map_sum id (\<lambda>r. (fst r, owned self (snd r))))
           (rewriter_lifetime k ops deepcopy self (filter is_Quantize steps) w')"
proof -
  from init have c: "config < length (configs w0)"
    and self: "qat_config self = length (configs w0)"
    and w1: "w1 = w0\<lparr>configs := configs w0 @ [configs w0 ! config]\<rparr>"
    by (auto simp: QAT_init_def deepcopy_config_def split: if_splits)
  have "owned self w1 = (layers w0, Some (configs w0 ! config))"
    by (simp add: owned_def w1 self)
  moreover have "take (length (configs w0)) (configs w1) = configs w0" by (simp add: w1)
  moreover have "\<forall>model inplace m w''.
            quantize k ops deepcopy self model inplace w = Some (Inr (m, w'')) \<longrightarrow>
            length (configs w'') = length (configs w) \<and>
            (\<forall>x. x \<noteq> qat_config self \<longrightarrow> configs w'' ! x = configs w ! x)"
    using quantize_writes_own_config by blast
  ultimately show ?thesis using self rewriter_lifetime_owned [OF view others] by blast
qed

lemma demo_alone:
  "rewriter_lifetime (Suc 2) demo_config demo_deepcopy \<lparr>qat_config = 1\<rparr> [Quantize 0 True]
     (demo_world\<lparr>configs := [demo_content0, demo_content0]\<rparr>) =
   Some (Inr ([0], demo_quantized\<lparr>configs := [demo_content0, demo_bound]\<rparr>))"
  by code_simp

theorem rewriter_config_isolated_witness:
  "QAT_init 0 demo_world =
     Some (\<lparr>qat_config = 1\<rparr>, demo_world\<lparr>configs := [demo_content0, demo_content0]\<rparr>) \<and>
   map_option (map_sum id (\<lambda>r. (fst r, owned \<lparr>qat_config = 1\<rparr> (snd r))))
     (rewriter_lifetime (Suc 2) demo_config demo_deepcopy \<lparr>qat_config = 1\<rparr>
        [Overwrite 0 (demo_content0\<lparr>quant_kinds := []\<rparr>), Quantize 0 True,
         Overwrite 0 (demo_content0\<lparr>bound := Some 5\<rparr>)]
        (demo_world\<lparr>configs := [demo_content0, demo_content0]\<rparr>)) =
   Some (Inr ([0], (layers demo_quantized, Some demo_bound)))"
proof -
  let ?w1 = "demo_world\<lparr>configs := [demo_content0, demo_content0]\<rparr>"
  let ?steps = "[Overwrite 0 (demo_content0\<lparr>quant_kinds := []\<rparr>), Quantize 0 True,
                 Overwrite 0 (demo_content0\<lparr>bound := Some 5\<rparr>)]"
  have init: "QAT_init 0 demo_world = Some (\<lparr>qat_config = 1\<rparr>, ?w1)"
    by (simp add: QAT_init_def deepcopy_config_def demo_world_def)
  have others: "\<forall>x v. Overwrite x v \<in> set ?steps \<longrightarrow> x \<noteq> qat_config \<lparr>qat_config = 1\<rparr>"
    by auto
  have f: "filter is_Quantize ?steps = [Quantize 0 True]" by simp
  from rewriter_config_isolated [OF init refl others, where k = "Suc 2" and ops = demo_config
         and deepcopy = demo_deepcopy]
  have "map_option (map_sum id (\<lambda>r. (fst r, owned \<lparr>qat_config = 1\<rparr> (snd r))))
          (rewriter_lifetime (Suc 2) demo_config demo_deepcopy \<lparr>qat_config = 1\<rparr> ?steps ?w1) =
        map_option (map_sum id (\<lambda>r. (fst r, owned \<lparr>qat_config = 1\<rparr> (snd r))))
          (rewriter_lifetime (Suc 2) demo_config demo_deepcopy \<lparr>qat_config = 1\<rparr>
             [Quantize 0 True] ?w1)"
    unfolding f by blast
  also have "\<dots> = Some (Inr ([0], (layers demo_quantized, Some demo_bound)))"
    unfolding demo_alone by (simp add: owned_def)
  finally show ?thesis using init by simp
qed

text \<open>
  Claim C8, as stated, fails in its last clause: a second call on the same rewriter, for
  the same model, reads the configuration that the first call's \<open>_specify\<close> wrote, and
  here it replaces nothing where the first call replaced \<open>conv\<close>.
\<close>

theorem rewriter_second_call_counterexample:
  "quantize 2 demo_once_config demo_deepcopy \<lparr>qat_config = 1\<rparr> 0 False demo_small_world =
     Some (Inr demo_once_first) \<and>
   quantize 2 demo_once_config demo_deepcopy \<lparr>qat_config = 1\<rparr> 0 False (snd demo_once_first) =
     Some (Inr demo_once_second) \<and>
   take 2 (layers (snd demo_once_first)) = layers demo_small_world \<and>
   configs (snd demo_once_first) ! 1 \<noteq> configs demo_small_world ! 1 \<and>
   child_at (layers (snd demo_once_first)) (fst demo_once_first) ''conv'' = Some 5 \<and>
   kind (layers (snd demo_once_first) ! 5) = ''ObserveWrapper'' \<and>
   child_at (layers (snd demo_once_second)) (fst demo_once_second) ''conv'' = Some 7 \<and>
   kind (layers (snd demo_once_second) ! 7) = ''Conv2D''"
  by code_simp





















section \<open>The order of the steps of \<open>quantize\<close>\<close>
















text \<open>
  In the example, no call of \<open>_get_observe_wrapper\<close> on the original layer \<open>5\<close> makes
  the wrapper that the final store holds.
\<close>

lemma demo_wrapper_not_of_original:
  "\<not> (\<exists>gc gd. get_observe_wrapper demo_config demo_bound gc 5 = Inr (9, gd) \<and>
          layers demo_quantized ! 9 = gd ! 9)"
  by (auto simp: demo_config_def demo_quantized_def nth_append)





section \<open>Errors\<close>




end
